theory Spec2Isabelle
  imports Complex_Main "HOL-Library.AList" "HOL-Library.Sublist" "HOL-Library.List_Lexorder"
begin

chapter \<open>A model of list\_chunk\_idfolder.py\<close>

text \<open>
  The program resolves identifiers to sub-directories of a source directory, splits the
  resolved identifiers into chunks, writes one manifest per chunk and copies or moves the
  directories of each chunk below a destination directory. The model follows the source
  function by function. What the source leaves to the Python standard library and the
  operating system (the file system, \<^verbatim>\<open>pathlib\<close>, \<^verbatim>\<open>shutil\<close>,
  \<^verbatim>\<open>json\<close>) is modelled here from the documented behaviour of these libraries, in
  the sections that say so.
\<close>

section \<open>Python values\<close>

text \<open>
  A Python \<^verbatim>\<open>str\<close> is a sequence of Unicode code points; a code point is a natural
  number. \<open>cp\<close> writes a literal. Files hold decoded text: the UTF-8 codec between a
  \<^verbatim>\<open>str\<close> and the bytes on disk is not modelled.
\<close>

type_synonym pystr = "nat list"

definition cp :: "string \<Rightarrow> pystr" where
  "cp s = map of_char s"

text \<open>The exceptions the program can raise. The source raises \<^verbatim>\<open>ValueError\<close> at two
  places, told apart by their message.\<close>

datatype value_error = ChunkSizeNotPositive | ProcessDestMissing

datatype error =
    FileNotFoundError
  | NotADirectoryError
  | IsADirectoryError
  | FileExistsError
  | ShutilError
  | KeyError
  | ValueError value_error

text \<open>\<^verbatim>\<open>str(n)\<close> for a non-negative integer.\<close>

fun py_str :: "nat \<Rightarrow> pystr" where
  "py_str n = (if n < 10 then [48 + n] else py_str (n div 10) @ [48 + n mod 10])"

declare py_str.simps [simp del]

text \<open>\<^verbatim>\<open>sep.join(parts)\<close>.\<close>

fun join :: "pystr \<Rightarrow> pystr list \<Rightarrow> pystr" where
  "join sep [] = []"
| "join sep [x] = x"
| "join sep (x # y # ys) = x @ sep @ join sep (y # ys)"

text \<open>\<^verbatim>\<open>str.isspace\<close> on one code point (the white space of CPython's Unicode database)
  and \<^verbatim>\<open>str.strip()\<close>.\<close>

definition py_isspace :: "nat \<Rightarrow> bool" where
  "py_isspace c =
     ((9 \<le> c \<and> c \<le> 13) \<or> (28 \<le> c \<and> c \<le> 32) \<or> c = 133 \<or> c = 160 \<or> c = 5760
      \<or> (8192 \<le> c \<and> c \<le> 8202) \<or> c = 8232 \<or> c = 8233 \<or> c = 8239 \<or> c = 8287
      \<or> c = 12288)"

definition strip :: "pystr \<Rightarrow> pystr" where
  "strip s = rev (dropWhile py_isspace (rev (dropWhile py_isspace s)))"

text \<open>A \<^verbatim>\<open>dict\<close> keeps its keys in the order of their first insertion; it is an
  association list, \<^verbatim>\<open>d[k] = v\<close> is \<open>AList.update k v d\<close> and \<^verbatim>\<open>k in d\<close> is
  \<open>dict_contains\<close>.\<close>

text \<open>The keys of a dictionary filled from a list, one after the other: each element at
  its first occurrence.\<close>

fun dedup :: "'a list \<Rightarrow> 'a list" where
  "dedup [] = []"
| "dedup (x # xs) = x # dedup (filter (\<lambda>y. y \<noteq> x) xs)"

definition dict_contains :: "('k \<times> 'v) list \<Rightarrow> 'k \<Rightarrow> bool" where
  "dict_contains d k = (map_of d k \<noteq> None)"

section \<open>The file system\<close>

text \<open>
  Modelled from the operating system's behaviour: a file system is a tree. A directory is
  an association list from names to nodes, in which the first entry of a name counts; a
  file holds its text. A path is the list of its components from the root. Symbolic links,
  permissions and devices are not modelled, and a path component is a plain name: the
  identifiers the program joins to a directory are taken to be single components (no
  separator, not \<^verbatim>\<open>.\<close> or \<^verbatim>\<open>..\<close>).
\<close>

type_synonym path = "pystr list"

datatype node = File pystr | Dir "(pystr \<times> node) list"

fun lookup :: "node \<Rightarrow> path \<Rightarrow> node option" where
  "lookup n [] = Some n"
| "lookup (File c) (x # xs) = None"
| "lookup (Dir es) (x # xs) = (case map_of es x of None \<Rightarrow> None | Some c \<Rightarrow> lookup c xs)"

text \<open>\<open>place p new fs\<close> puts \<open>new\<close> at \<open>p\<close> when the parent of \<open>p\<close> is a directory
  (and leaves \<open>fs\<close> as it is otherwise); \<open>remove p fs\<close> deletes the entry at \<open>p\<close>.\<close>

fun place :: "path \<Rightarrow> node \<Rightarrow> node \<Rightarrow> node" where
  "place [] new n = new"
| "place (x # xs) new (File c) = File c"
| "place (x # xs) new (Dir es) =
     (if xs = [] then Dir (AList.update x new es)
      else (case map_of es x of
              None \<Rightarrow> Dir es
            | Some c \<Rightarrow> Dir (AList.update x (place xs new c) es)))"

fun remove :: "path \<Rightarrow> node \<Rightarrow> node" where
  "remove [] n = n"
| "remove (x # xs) (File c) = File c"
| "remove (x # xs) (Dir es) =
     (if xs = [] then Dir (AList.delete x es)
      else (case map_of es x of
              None \<Rightarrow> Dir es
            | Some c \<Rightarrow> Dir (AList.update x (remove xs c) es)))"

text \<open>\<^verbatim>\<open>Path.exists()\<close>, \<^verbatim>\<open>Path.is_dir()\<close>, \<^verbatim>\<open>Path.is_file()\<close>,
  \<^verbatim>\<open>Path.parent\<close> and \<^verbatim>\<open>Path.name\<close>.\<close>

definition path_exists :: "node \<Rightarrow> path \<Rightarrow> bool" where
  "path_exists fs p = (lookup fs p \<noteq> None)"

definition is_dir :: "node \<Rightarrow> path \<Rightarrow> bool" where
  "is_dir fs p = (case lookup fs p of Some (Dir es) \<Rightarrow> True | _ \<Rightarrow> False)"

definition is_file :: "node \<Rightarrow> path \<Rightarrow> bool" where
  "is_file fs p = (case lookup fs p of Some (File c) \<Rightarrow> True | _ \<Rightarrow> False)"

definition parent :: "path \<Rightarrow> path" where
  "parent p = butlast p"

definition path_name :: "path \<Rightarrow> pystr" where
  "path_name p = (if p = [] then [] else last p)"

text \<open>A statement that changes the file system either finishes in a new state or raises
  an exception in the state it had reached.\<close>

datatype outcome = Finished node | Raised error node

fun and_then :: "outcome \<Rightarrow> (node \<Rightarrow> outcome) \<Rightarrow> outcome" where
  "and_then (Finished fs) f = f fs"
| "and_then (Raised e fs) f = Raised e fs"

text \<open>A \<^verbatim>\<open>for\<close> loop whose body changes the file system: an exception in the body leaves
  the loop.\<close>

fun for_each :: "(node \<Rightarrow> 'a \<Rightarrow> outcome) \<Rightarrow> 'a list \<Rightarrow> node \<Rightarrow> outcome" where
  "for_each body [] fs = Finished fs"
| "for_each body (x # xs) fs = and_then (body fs x) (for_each body xs)"

text \<open>\<^verbatim>\<open>Path.mkdir(parents=True, exist_ok=True)\<close>: every missing directory on the path is
  created; a file in the way is an error.\<close>

fun fresh_dirs :: "path \<Rightarrow> node" where
  "fresh_dirs [] = Dir []"
| "fresh_dirs (x # xs) = Dir [(x, fresh_dirs xs)]"

fun mkdirs :: "path \<Rightarrow> node \<Rightarrow> error + node" where
  "mkdirs [] (Dir es) = Inr (Dir es)"
| "mkdirs [] (File c) = Inl FileExistsError"
| "mkdirs (x # xs) (File c) = Inl NotADirectoryError"
| "mkdirs (x # xs) (Dir es) =
     (case map_of es x of
        None \<Rightarrow> Inr (Dir (AList.update x (fresh_dirs xs) es))
      | Some c \<Rightarrow>
         (case mkdirs xs c of
            Inl e \<Rightarrow> Inl e
          | Inr c' \<Rightarrow> Inr (Dir (AList.update x c' es))))"

definition mkdir_parents :: "node \<Rightarrow> path \<Rightarrow> outcome" where
  "mkdir_parents fs p = (case mkdirs p fs of Inl e \<Rightarrow> Raised e fs | Inr fs' \<Rightarrow> Finished fs')"

text \<open>\<^verbatim>\<open>open(p, "w")\<close> followed by writing \<open>content\<close>, and \<^verbatim>\<open>open(p, "r")\<close> followed by
  reading the whole file.\<close>

definition write_file :: "node \<Rightarrow> path \<Rightarrow> pystr \<Rightarrow> outcome" where
  "write_file fs p content =
     (case lookup fs p of
        Some (Dir es) \<Rightarrow> Raised IsADirectoryError fs
      | _ \<Rightarrow>
         (case lookup fs (parent p) of
            None \<Rightarrow> Raised FileNotFoundError fs
          | Some (File c) \<Rightarrow> Raised NotADirectoryError fs
          | Some (Dir es) \<Rightarrow> Finished (place p (File content) fs)))"

definition read_file :: "node \<Rightarrow> path \<Rightarrow> error + pystr" where
  "read_file fs p =
     (case lookup fs p of
        None \<Rightarrow> Inl FileNotFoundError
      | Some (Dir es) \<Rightarrow> Inl IsADirectoryError
      | Some (File c) \<Rightarrow> Inr c)"

text \<open>\<^verbatim>\<open>shutil.rmtree(p)\<close> and \<^verbatim>\<open>Path.unlink()\<close>.\<close>

definition rmtree :: "node \<Rightarrow> path \<Rightarrow> outcome" where
  "rmtree fs p =
     (case lookup fs p of
        None \<Rightarrow> Raised FileNotFoundError fs
      | Some (File c) \<Rightarrow> Raised NotADirectoryError fs
      | Some (Dir es) \<Rightarrow> Finished (remove p fs))"

definition unlink :: "node \<Rightarrow> path \<Rightarrow> outcome" where
  "unlink fs p =
     (case lookup fs p of
        None \<Rightarrow> Raised FileNotFoundError fs
      | Some (Dir es) \<Rightarrow> Raised IsADirectoryError fs
      | Some (File c) \<Rightarrow> Finished (remove p fs))"

text \<open>
  \<^verbatim>\<open>shutil.copytree(src, dst)\<close>: \<open>src\<close> must be a directory and \<open>dst\<close> must not exist;
  the missing parents of \<open>dst\<close> are created and \<open>dst\<close> becomes a copy of the tree at
  \<open>src\<close>. Copying a directory to a place inside itself is outside the model (Python
  walks the tree while it grows): the model reports it as \<open>ShutilError\<close>.
\<close>

definition copytree :: "node \<Rightarrow> path \<Rightarrow> path \<Rightarrow> outcome" where
  "copytree fs src dst =
     (case lookup fs src of
        None \<Rightarrow> Raised FileNotFoundError fs
      | Some (File c) \<Rightarrow> Raised NotADirectoryError fs
      | Some (Dir es) \<Rightarrow>
          if path_exists fs dst then Raised FileExistsError fs
          else if prefix src dst then Raised ShutilError fs
          else and_then (mkdir_parents fs (parent dst)) (\<lambda>fs1. Finished (place dst (Dir es) fs1)))"

text \<open>
  \<^verbatim>\<open>shutil.move(src, dst)\<close>. When \<open>dst\<close> is an existing directory the source is moved
  into it under its own name, unless an entry of that name is there. Otherwise
  \<open>src\<close> is renamed to \<open>dst\<close>: the source must exist, must not contain the destination,
  the parent of the destination must be a directory, and a file is replaced by a file only.
  \<open>shutil_move\<close> calls \<open>rename_to\<close> with a destination that is not an existing
  directory.
\<close>

definition rename_to :: "node \<Rightarrow> path \<Rightarrow> path \<Rightarrow> outcome" where
  "rename_to fs src dst =
     (case lookup fs src of
        None \<Rightarrow> Raised FileNotFoundError fs
      | Some n \<Rightarrow>
          if src = dst then Finished fs
          else if prefix src dst then
            (case n of Dir es \<Rightarrow> Raised ShutilError fs | File c \<Rightarrow> Raised NotADirectoryError fs)
          else
            (case lookup fs (parent dst) of
               None \<Rightarrow> Raised FileNotFoundError fs
             | Some (File c) \<Rightarrow> Raised NotADirectoryError fs
             | Some (Dir ds) \<Rightarrow>
                 (case (lookup fs dst, n) of
                    (Some (Dir es), _) \<Rightarrow> Raised FileExistsError fs
                  | (Some (File c), Dir es) \<Rightarrow> Raised FileExistsError fs
                  | _ \<Rightarrow> Finished (place dst n (remove src fs)))))"

definition shutil_move :: "node \<Rightarrow> path \<Rightarrow> path \<Rightarrow> outcome" where
  "shutil_move fs src dst =
     (if is_dir fs dst then
        (if src = dst then Finished fs
         else if path_exists fs (dst @ [path_name src]) then Raised ShutilError fs
         else rename_to fs src (dst @ [path_name src]))
      else rename_to fs src dst)"

section \<open>Loading identifiers\<close>

text \<open>
  Iterating over a text file opened with the default \<^verbatim>\<open>newline=None\<close>: the line ends
  \<^verbatim>\<open>\r\n\<close> and \<^verbatim>\<open>\r\<close> are read as \<^verbatim>\<open>\n\<close>, and each line keeps its
  \<^verbatim>\<open>\n\<close>. (Code point 10 is the line feed, 13 the carriage return.)
\<close>

fun universal_newlines :: "pystr \<Rightarrow> pystr" where
  "universal_newlines [] = []"
| "universal_newlines [c] = (if c = 13 then [10] else [c])"
| "universal_newlines (c # d # cs) =
     (if c = 13 \<and> d = 10 then 10 # universal_newlines cs
      else if c = 13 then 10 # universal_newlines (d # cs)
      else c # universal_newlines (d # cs))"

fun readlines :: "pystr \<Rightarrow> pystr list" where
  "readlines [] = []"
| "readlines (c # cs) =
     (if c = 10 then [10] # readlines cs
      else (case readlines cs of [] \<Rightarrow> [[c]] | l # ls \<Rightarrow> (c # l) # ls))"

text \<open>
  \<^verbatim>\<open>
  def read_ids_from_txt(path: Path) -> List[str]:
      ids = []
      with path.open("r", encoding="utf-8") as fh:
          for line in fh:
              s = line.strip()
              if s:
                  ids.append(s)
      return ids
  \<close>
\<close>

definition ids_of_text :: "pystr \<Rightarrow> pystr list" where
  "ids_of_text content = filter (\<lambda>s. s \<noteq> []) (map strip (readlines (universal_newlines content)))"

definition read_ids_from_txt :: "node \<Rightarrow> path \<Rightarrow> error + pystr list" where
  "read_ids_from_txt fs p =
     (case read_file fs p of Inl e \<Rightarrow> Inl e | Inr content \<Rightarrow> Inr (ids_of_text content))"

text \<open>
  \<^verbatim>\<open>Path.suffix\<close> of a file name, and \<^verbatim>\<open>str.lower()\<close> on the letters A to Z (enough
  to compare a suffix with \<^verbatim>\<open>.csv\<close>).
\<close>

definition path_suffix :: "pystr \<Rightarrow> pystr" where
  "path_suffix name =
     (let ext = rev (takeWhile (\<lambda>c. c \<noteq> 46) (rev name))
      in if 46 \<in> set name \<and> Suc (length ext) < length name \<and> ext \<noteq> [] then 46 # ext else [])"

definition py_lower :: "pystr \<Rightarrow> pystr" where
  "py_lower s = map (\<lambda>c. if 65 \<le> c \<and> c \<le> 90 then c + 32 else c) s"

text \<open>
  \<^verbatim>\<open>
  def load_ids(ids_path: str, csv_column: str = None) -> List[str]:
      p = Path(ids_path)
      if not p.exists():
          raise FileNotFoundError(f"IDs file not found: {ids_path}")
      suffix = p.suffix.lower()
      if suffix == ".txt":
          return read_ids_from_txt(p)
      elif suffix == ".csv":
          return read_ids_from_csv(p, column=csv_column)
      else:
          return read_ids_from_txt(p)
  \<close>
  \<^verbatim>\<open>read_ids_from_csv\<close> parses the file with Python's \<^verbatim>\<open>csv\<close> module, which is not
  modelled: the parameter \<open>read_csv\<close> stands for it, from the text of the file and the
  column name to the identifiers.
\<close>

definition load_ids ::
  "(pystr \<Rightarrow> pystr option \<Rightarrow> pystr list) \<Rightarrow> node \<Rightarrow> path \<Rightarrow> pystr option \<Rightarrow> error + pystr list" where
  "load_ids read_csv fs ids_path csv_column =
     (if \<not> path_exists fs ids_path then Inl FileNotFoundError
      else if py_lower (path_suffix (path_name ids_path)) = cp ''.txt'' then read_ids_from_txt fs ids_path
      else if py_lower (path_suffix (path_name ids_path)) = cp ''.csv'' then
        (case read_file fs ids_path of
           Inl e \<Rightarrow> Inl e
         | Inr content \<Rightarrow> Inr (read_csv content csv_column))
      else read_ids_from_txt fs ids_path)"

section \<open>Resolver\<close>

text \<open>
  \<^verbatim>\<open>
  def map_ids_to_folders(source_folder, ids):
      src = Path(source_folder)
      if not src.exists() or not src.is_dir():
          raise NotADirectoryError(...)
      mapping: Dict[str, Path] = {}
      missing: List[str] = []
      for id_ in ids:
          candidate = src / id_
          if candidate.exists() and candidate.is_dir():
              mapping[id_] = candidate
          else:
              missing.append(id_)
      return mapping, missing
  \<close>
\<close>

fun resolve_ids ::
  "node \<Rightarrow> path \<Rightarrow> pystr list \<Rightarrow> (pystr \<times> path) list \<Rightarrow> pystr list
     \<Rightarrow> (pystr \<times> path) list \<times> pystr list" where
  "resolve_ids fs src [] mapping missing = (mapping, missing)"
| "resolve_ids fs src (i # ids) mapping missing =
     (if path_exists fs (src @ [i]) \<and> is_dir fs (src @ [i])
      then resolve_ids fs src ids (AList.update i (src @ [i]) mapping) missing
      else resolve_ids fs src ids mapping (missing @ [i]))"

definition map_ids_to_folders ::
  "node \<Rightarrow> path \<Rightarrow> pystr list \<Rightarrow> error + ((pystr \<times> path) list \<times> pystr list)" where
  "map_ids_to_folders fs source_folder ids =
     (if \<not> path_exists fs source_folder \<or> \<not> is_dir fs source_folder then Inl NotADirectoryError
      else Inr (resolve_ids fs source_folder ids [] []))"

text \<open>The list \<^verbatim>\<open>main\<close> derives from the mapping:
  \<^verbatim>\<open>existing_ids_in_order = [id_ for id_ in ids if id_ in mapping]\<close>.\<close>

definition existing_ids_in_order :: "pystr list \<Rightarrow> (pystr \<times> path) list \<Rightarrow> pystr list" where
  "existing_ids_in_order ids mapping = filter (dict_contains mapping) ids"

text \<open>Putting two sequences back together by original index: the flags say, index by
  index, which of the two sequences the element came from.\<close>

fun interleave_by_index :: "bool list \<Rightarrow> 'a list \<Rightarrow> 'a list \<Rightarrow> 'a list" where
  "interleave_by_index (True # bs) (x # xs) ys = x # interleave_by_index bs xs ys"
| "interleave_by_index (False # bs) xs (y # ys) = y # interleave_by_index bs xs ys"
| "interleave_by_index bs xs ys = []"

section \<open>Lister\<close>

text \<open>
  \<^verbatim>\<open>
  def list_files_in_folder(folder: Path, recursive: bool = True) -> List[str]:
      files: List[str] = []
      if recursive:
          for p in folder.rglob("*"):
              if p.is_file():
                  files.append(str(p.resolve()))
      else:
          for p in folder.iterdir():
              if p.is_file():
                  files.append(str(p.resolve()))
      files.sort()
      return files
  \<close>
  \<^verbatim>\<open>rglob\<close> yields nothing for a path that is not a directory; \<^verbatim>\<open>iterdir\<close> raises.
\<close>

lemma clearjunk_entry: "e \<in> set (AList.clearjunk es) \<Longrightarrow> e \<in> set es"
proof -
  assume "e \<in> set (AList.clearjunk es)"
  then have "(fst e, snd e) \<in> Map.graph (map_of es)" by (simp add: graph_map_of)
  then have "map_of es (fst e) = Some (snd e)" by (simp add: in_graphD)
  then have "(fst e, snd e) \<in> set es" by (rule map_of_SomeD)
  then show ?thesis by simp
qed

lemma entry_size: "e \<in> set es \<Longrightarrow> size (snd e) < size (Dir es)"
  by (induction es) auto

function files_below :: "node \<Rightarrow> path \<Rightarrow> path list" where
  "files_below (File c) p = [p]"
| "files_below (Dir es) p =
     concat (map (\<lambda>e. files_below (snd e) (p @ [fst e])) (AList.clearjunk es))"
  by pat_completeness auto
termination
proof (relation "measure (\<lambda>(n, p). size n)")
  show "wf (measure (\<lambda>(n, p). size n))" by simp
next
  fix es :: "(pystr \<times> node) list" and p :: path and e
  assume "e \<in> set (AList.clearjunk es)"
  then have "e \<in> set es" by (rule clearjunk_entry)
  then have "size (snd e) < size (Dir es)" by (rule entry_size)
  then show "((snd e, p @ [fst e]), (Dir es, p)) \<in> measure (\<lambda>(n, p). size n)" by simp
qed

definition path_str :: "path \<Rightarrow> pystr" where
  "path_str p = (if p = [] then [47] else concat (map (\<lambda>c. 47 # c) p))"

definition list_files_in_folder :: "node \<Rightarrow> path \<Rightarrow> bool \<Rightarrow> error + pystr list" where
  "list_files_in_folder fs folder recursive =
     (case lookup fs folder of
        Some (Dir es) \<Rightarrow>
          if recursive then Inr (sort (map path_str (files_below (Dir es) folder)))
          else Inr (sort (map (\<lambda>e. path_str (folder @ [fst e]))
                      (filter (\<lambda>e. case snd e of File c \<Rightarrow> True | Dir ds \<Rightarrow> False) (AList.clearjunk es))))
      | Some (File c) \<Rightarrow> if recursive then Inr [] else Inl NotADirectoryError
      | None \<Rightarrow> if recursive then Inr [] else Inl FileNotFoundError)"

section \<open>Chunker\<close>

text \<open>
  \<^verbatim>\<open>
  def chunkify(items: List, chunk_size: int) -> List[List]:
      if chunk_size <= 0:
          raise ValueError("chunk_size must be > 0")
      return [items[i:i + chunk_size] for i in range(0, len(items), chunk_size)]
  \<close>
  \<open>py_range i n step\<close> is \<^verbatim>\<open>range(i, n, step)\<close> for a positive step, and
  \<open>slice xs i j\<close> is \<^verbatim>\<open>xs[i:j]\<close> for \<open>0 \<le> i \<le> j\<close>.
\<close>

function py_range :: "nat \<Rightarrow> nat \<Rightarrow> nat \<Rightarrow> nat list" where
  "py_range i n step = (if step = 0 \<or> n \<le> i then [] else i # py_range (i + step) n step)"
  by pat_completeness auto
termination
  by (relation "measure (\<lambda>(i, n, step). n - i)") auto

declare py_range.simps [simp del]

definition slice :: "'a list \<Rightarrow> nat \<Rightarrow> nat \<Rightarrow> 'a list" where
  "slice xs i j = take (j - i) (drop i xs)"

definition chunkify :: "'a list \<Rightarrow> int \<Rightarrow> error + 'a list list" where
  "chunkify items chunk_size =
     (if chunk_size \<le> 0 then Inl (ValueError ChunkSizeNotPositive)
      else Inr (map (\<lambda>i. slice items i (i + nat chunk_size))
                    (py_range 0 (length items) (nat chunk_size))))"

text \<open>\<^verbatim>\<open>enumerate(chunks, start=1)\<close>.\<close>

definition enumerate1 :: "'a list \<Rightarrow> (nat \<times> 'a) list" where
  "enumerate1 xs = zip [1..<Suc (length xs)] xs"

section \<open>Persister\<close>

subsection \<open>The JSON text of a list of strings\<close>

text \<open>
  Modelled from the spec: the structured manifest format, "a single array-of-strings
  document, preserving chunk order, human-readable indentation, non-ASCII characters
  preserved verbatim (not escaped)". The source writes it with \<^verbatim>\<open>json.dump(obj, fh,
  indent=2, ensure_ascii=False)\<close> of the Python standard library, which is not part of
  the sources; the model gives what that call writes for a list of strings and for a
  dictionary from strings to lists of strings. A string stands between double quotes with
  only the double quote (34), the backslash (92) and the control characters below 32
  escaped: \<^verbatim>\<open>\b \t \n \f \r\<close> by their short forms, the others as
  \<^verbatim>\<open>\u00XX\<close>.
\<close>

definition hex_digit :: "nat \<Rightarrow> nat" where
  "hex_digit d = (if d < 10 then 48 + d else 87 + d)"

definition escape_char :: "nat \<Rightarrow> pystr" where
  "escape_char c =
     (if c = 92 then [92, 92]
      else if c = 34 then [92, 34]
      else if c = 8 then [92, 98]
      else if c = 12 then [92, 102]
      else if c = 10 then [92, 110]
      else if c = 13 then [92, 114]
      else if c = 9 then [92, 116]
      else if c < 32 then [92, 117, 48, 48, hex_digit (c div 16), hex_digit (c mod 16)]
      else [c])"

definition py_encode_basestring :: "pystr \<Rightarrow> pystr" where
  "py_encode_basestring s = [34] @ concat (map escape_char s) @ [34]"

definition newline_indent :: "nat \<Rightarrow> pystr" where
  "newline_indent level = 10 # replicate (2 * level) 32"

definition json_list :: "nat \<Rightarrow> pystr list \<Rightarrow> pystr" where
  "json_list level items =
     (if items = [] then [91, 93]
      else [91] @ newline_indent (Suc level)
           @ join (44 # newline_indent (Suc level)) (map py_encode_basestring items)
           @ newline_indent level @ [93])"

definition json_dict :: "(pystr \<times> pystr list) list \<Rightarrow> pystr" where
  "json_dict d =
     (if d = [] then [123, 125]
      else [123] @ newline_indent 1
           @ join (44 # newline_indent 1)
               (map (\<lambda>kv. py_encode_basestring (fst kv) @ [58, 32] @ json_list 1 (snd kv)) d)
           @ newline_indent 0 @ [125])"

text \<open>
  Modelled from the spec: "reading it back", the reader of a structured manifest. The
  sources hold no reader (the program never reads a manifest); the model is
  \<^verbatim>\<open>json.loads\<close> of the Python standard library on a document that is an array of
  strings. Any other document is refused (\<open>None\<close>). \<open>scanstring\<close> reads a string
  after its opening quote and returns it with the rest of the input.
\<close>

definition json_ws :: "nat \<Rightarrow> bool" where
  "json_ws c = (c = 32 \<or> c = 9 \<or> c = 10 \<or> c = 13)"

definition skip_ws :: "pystr \<Rightarrow> pystr" where
  "skip_ws cs = dropWhile json_ws cs"

definition hex_value :: "nat \<Rightarrow> nat option" where
  "hex_value c =
     (if 48 \<le> c \<and> c \<le> 57 then Some (c - 48)
      else if 97 \<le> c \<and> c \<le> 102 then Some (c - 87)
      else if 65 \<le> c \<and> c \<le> 70 then Some (c - 55)
      else None)"

definition decode_uXXXX :: "pystr \<Rightarrow> nat option" where
  "decode_uXXXX cs =
     (case map hex_value (take 4 cs) of
        [Some a, Some b, Some c, Some d] \<Rightarrow> Some (((a * 16 + b) * 16 + c) * 16 + d)
      | _ \<Rightarrow> None)"

definition backslash_char :: "nat \<Rightarrow> nat option" where
  "backslash_char e =
     (if e = 34 then Some 34
      else if e = 92 then Some 92
      else if e = 47 then Some 47
      else if e = 98 then Some 8
      else if e = 102 then Some 12
      else if e = 110 then Some 10
      else if e = 114 then Some 13
      else if e = 116 then Some 9
      else None)"

definition prepend :: "'a \<Rightarrow> ('a list \<times> 'b) option \<Rightarrow> ('a list \<times> 'b) option" where
  "prepend x r = map_option (\<lambda>sr. (x # fst sr, snd sr)) r"

fun scanstring :: "pystr \<Rightarrow> (pystr \<times> pystr) option" where
  "scanstring [] = None"
| "scanstring (c # cs) =
     (if c = 34 then Some ([], cs)
      else if c = 92 then
        (case cs of
           [] \<Rightarrow> None
         | e # r \<Rightarrow>
            if e = 117 then
              (case decode_uXXXX r of
                 None \<Rightarrow> None
               | Some uni \<Rightarrow>
                  if 55296 \<le> uni \<and> uni \<le> 56319 \<and> take 2 (drop 4 r) = [92, 117] then
                    (case decode_uXXXX (drop 6 r) of
                       None \<Rightarrow> None
                     | Some uni2 \<Rightarrow>
                        if 56320 \<le> uni2 \<and> uni2 \<le> 57343
                        then prepend (65536 + ((uni - 55296) * 1024 + (uni2 - 56320)))
                               (scanstring (drop 10 r))
                        else prepend uni (scanstring (drop 4 r)))
                  else prepend uni (scanstring (drop 4 r)))
            else (case backslash_char e of
                    None \<Rightarrow> None
                  | Some ch \<Rightarrow> prepend ch (scanstring r)))
      else if c < 32 then None
      else prepend c (scanstring cs))"

lemma scanstring_shorter: "scanstring cs = Some (s, r) \<Longrightarrow> length r < length cs"
proof (induction cs arbitrary: s r rule: scanstring.induct)
  case 1
  then show ?case by simp
next
  case (2 c cs)
  show ?case
  proof (cases "c = 34")
    case True
    with "2.prems" show ?thesis by simp
  next
    case c34: False
    show ?thesis
    proof (cases "c = 92")
      case False
      with c34 "2.prems" obtain s' where "scanstring cs = Some (s', r)"
        by (auto simp: prepend_def split: if_splits)
      with "2.IH"(5) [OF c34 False] "2.prems" c34 False show ?thesis
        by (fastforce split: if_splits)
    next
      case True
      with c34 "2.prems" obtain e t where cs: "cs = e # t"
        by (cases cs) auto
      show ?thesis
      proof (cases "e = 117")
        case False
        with c34 True cs "2.prems" obtain ch s' where
          "backslash_char e = Some ch" "scanstring t = Some (s', r)"
          by (auto simp: prepend_def split: option.splits)
        with "2.IH"(4) [OF c34 True cs False] cs show ?thesis by fastforce
      next
        case e: True
        with c34 True cs "2.prems" obtain uni where uni: "decode_uXXXX t = Some uni"
          by (auto split: option.splits)
        let ?pair = "55296 \<le> uni \<and> uni \<le> 56319 \<and> take 2 (drop 4 t) = [92, 117]"
        show ?thesis
        proof (cases ?pair)
          case False
          with c34 True cs e uni "2.prems" obtain s' where "scanstring (drop 4 t) = Some (s', r)"
            by (auto simp: prepend_def split: option.splits)
          with "2.IH"(3) [OF c34 True cs e uni False] cs
          have "length r < length (drop 4 t)" by blast
          with cs show ?thesis by simp
        next
          case pair: True
          with c34 True cs e uni "2.prems" obtain uni2 where uni2: "decode_uXXXX (drop 6 t) = Some uni2"
            by (auto split: option.splits)
          show ?thesis
          proof (cases "56320 \<le> uni2 \<and> uni2 \<le> 57343")
            case low: True
            with c34 True cs e uni pair uni2 "2.prems" obtain s' where
              "scanstring (drop 10 t) = Some (s', r)"
              by (auto simp: prepend_def split: option.splits)
            with "2.IH"(1) [OF c34 True cs e uni pair uni2 low]
            have "length r < length (drop 10 t)" by blast
            with cs show ?thesis by simp
          next
            case low: False
            with c34 True cs e uni pair uni2 "2.prems" obtain s' where
              "scanstring (drop 4 t) = Some (s', r)"
              by (auto simp: prepend_def split: option.splits)
            with "2.IH"(2) [OF c34 True cs e uni pair uni2 low]
            have "length r < length (drop 4 t)" by blast
            with cs show ?thesis by simp
          qed
        qed
      qed
    qed
  qed
qed

text \<open>\<open>parse_items\<close> reads the elements of a non-empty array, from the first element to the
  closing bracket.\<close>

function parse_items :: "pystr \<Rightarrow> (pystr list \<times> pystr) option" where
  "parse_items cs =
     (case cs of
        [] \<Rightarrow> None
      | c # cs1 \<Rightarrow>
         if c \<noteq> 34 then None
         else (case scanstring cs1 of
                 None \<Rightarrow> None
               | Some sr \<Rightarrow>
                  (case skip_ws (snd sr) of
                     [] \<Rightarrow> None
                   | d # r1 \<Rightarrow>
                      if d = 93 then Some ([fst sr], r1)
                      else if d = 44 then prepend (fst sr) (parse_items (skip_ws r1))
                      else None)))"
  by pat_completeness auto
termination
proof (relation "measure length")
  show "wf (measure length)" by simp
next
  fix cs :: pystr and c cs1 sr d r1
  assume cs: "cs = c # cs1" and sr: "scanstring cs1 = Some sr" and ws: "skip_ws (snd sr) = d # r1"
  from sr have "length (snd sr) < length cs1"
    using scanstring_shorter [of cs1 "fst sr" "snd sr"] by simp
  moreover have "length (skip_ws (snd sr)) \<le> length (snd sr)"
    unfolding skip_ws_def by (rule length_dropWhile_le)
  moreover have "length (skip_ws r1) \<le> length r1"
    unfolding skip_ws_def by (rule length_dropWhile_le)
  ultimately show "(skip_ws r1, cs) \<in> measure length" using cs ws by simp
qed

declare parse_items.simps [simp del]

definition json_loads :: "pystr \<Rightarrow> pystr list option" where
  "json_loads doc =
     (case skip_ws doc of
        [] \<Rightarrow> None
      | c # r \<Rightarrow>
         if c \<noteq> 91 then None
         else (case skip_ws r of
                 [] \<Rightarrow> None
               | d # r1 \<Rightarrow>
                  if d = 93 then (if skip_ws r1 = [] then Some [] else None)
                  else (case parse_items (d # r1) of
                          None \<Rightarrow> None
                        | Some vr \<Rightarrow> if skip_ws (snd vr) = [] then Some (fst vr) else None)))"

subsection \<open>Writing a manifest\<close>

text \<open>
  \<^verbatim>\<open>
  def save_chunk_json(chunk: List[str], out_path: Path) -> None:
      out_path.parent.mkdir(parents=True, exist_ok=True)
      with out_path.open("w", encoding="utf-8") as fh:
          json.dump(chunk, fh, indent=2, ensure_ascii=False)

  def save_chunk_text(chunk: List[str], out_path: Path) -> None:
      out_path.parent.mkdir(parents=True, exist_ok=True)
      with out_path.open("w", encoding="utf-8") as fh:
          for item in chunk:
              fh.write(f"{item}\n")
  \<close>
  The line end written is \<^verbatim>\<open>\n\<close> (the platform's \<^verbatim>\<open>os.linesep\<close> on POSIX).
\<close>

definition save_chunk_json :: "node \<Rightarrow> pystr list \<Rightarrow> path \<Rightarrow> outcome" where
  "save_chunk_json fs chunk out_path =
     and_then (mkdir_parents fs (parent out_path))
       (\<lambda>fs1. write_file fs1 out_path (json_list 0 chunk))"

definition chunk_text :: "pystr list \<Rightarrow> pystr" where
  "chunk_text chunk = concat (map (\<lambda>item. item @ [10]) chunk)"

definition save_chunk_text :: "node \<Rightarrow> pystr list \<Rightarrow> path \<Rightarrow> outcome" where
  "save_chunk_text fs chunk out_path =
     and_then (mkdir_parents fs (parent out_path))
       (\<lambda>fs1. write_file fs1 out_path (chunk_text chunk))"

text \<open>An identifier that the line-delimited format keeps: not empty, without line feed
  (10) or carriage return (13), and unchanged by \<^verbatim>\<open>strip()\<close>.\<close>

definition plain_id :: "pystr \<Rightarrow> bool" where
  "plain_id s = (s \<noteq> [] \<and> 10 \<notin> set s \<and> 13 \<notin> set s \<and> strip s = s)"

section \<open>Transactor\<close>

text \<open>
  \<^verbatim>\<open>
  def copy_chunk_folders(chunk_mapping: Dict[str, Path], dest_root: Path, chunk_name: str) -> None:
      dest = dest_root / chunk_name
      dest.mkdir(parents=True, exist_ok=True)
      for id_, src_path in chunk_mapping.items():
          target = dest / id_
          # shutil.copytree requires target not exist, so remove existing first if present:
          if target.exists():
              # be careful: only remove if it's a directory (prevent accidental file removal)
              if target.is_dir():
                  shutil.rmtree(target)
              else:
                  target.unlink()
          shutil.copytree(src_path, target)
  \<close>
  \<open>remove_existing\<close> is the collision handling both loops share, \<open>copy_entry\<close> the body
  of the loop for one pair of the mapping.
\<close>

definition remove_existing :: "node \<Rightarrow> path \<Rightarrow> outcome" where
  "remove_existing fs target =
     (if path_exists fs target then
        (if is_dir fs target then rmtree fs target else unlink fs target)
      else Finished fs)"

definition copy_entry :: "path \<Rightarrow> node \<Rightarrow> pystr \<times> path \<Rightarrow> outcome" where
  "copy_entry dest fs entry =
     and_then (remove_existing fs (dest @ [fst entry]))
       (\<lambda>fs1. copytree fs1 (snd entry) (dest @ [fst entry]))"

definition copy_chunk_folders :: "node \<Rightarrow> (pystr \<times> path) list \<Rightarrow> path \<Rightarrow> pystr \<Rightarrow> outcome" where
  "copy_chunk_folders fs chunk_mapping dest_root chunk_name =
     and_then (mkdir_parents fs (dest_root @ [chunk_name]))
       (for_each (copy_entry (dest_root @ [chunk_name])) chunk_mapping)"

text \<open>
  \<^verbatim>\<open>
  def move_chunk_folders(chunk_mapping: Dict[str, Path], dest_root: Path, chunk_name: str) -> None:
      dest = dest_root / chunk_name
      dest.mkdir(parents=True, exist_ok=True)
      for id_, src_path in chunk_mapping.items():
          target = dest / id_
          if target.exists():
              if target.is_dir():
                  shutil.rmtree(target)
              else:
                  target.unlink()
          shutil.move(str(src_path), str(target))
  \<close>
\<close>

definition move_entry :: "path \<Rightarrow> node \<Rightarrow> pystr \<times> path \<Rightarrow> outcome" where
  "move_entry dest fs entry =
     and_then (remove_existing fs (dest @ [fst entry]))
       (\<lambda>fs1. shutil_move fs1 (snd entry) (dest @ [fst entry]))"

definition move_chunk_folders :: "node \<Rightarrow> (pystr \<times> path) list \<Rightarrow> path \<Rightarrow> pystr \<Rightarrow> outcome" where
  "move_chunk_folders fs chunk_mapping dest_root chunk_name =
     and_then (mkdir_parents fs (dest_root @ [chunk_name]))
       (for_each (move_entry (dest_root @ [chunk_name])) chunk_mapping)"

section \<open>The command line and main\<close>

text \<open>
  The parsed arguments of \<^verbatim>\<open>build_arg_parser\<close>. Paths are given by their components;
  \<open>process_dest\<close> is \<open>None\<close> when \<^verbatim>\<open>--process-dest\<close> is absent or empty (the source
  tests \<^verbatim>\<open>not args.process_dest\<close>).
\<close>

datatype chunk_fmt = Json | Text

datatype process_mode = NoProcessing | Copy | Move

record args =
  source :: path
  ids :: path
  csv_column :: "pystr option"
  recursive :: bool
  chunk_size :: int
  save_chunks :: bool
  chunk_format :: chunk_fmt
  chunk_prefix :: pystr
  chunks_dir :: path
  process_chunks :: process_mode
  process_dest :: "path option"
  print_only :: bool

definition fmt_name :: "chunk_fmt \<Rightarrow> pystr" where
  "fmt_name f = (case f of Json \<Rightarrow> cp ''json'' | Text \<Rightarrow> cp ''text'')"

text \<open>
  The file lists of the resolved folders:
  \<^verbatim>\<open>
      detailed_map: Dict[str, List[str]] = {}
      for id_ in existing_ids_in_order:
          folder = mapping[id_]
          files = list_files_in_folder(folder, recursive=args.recursive)
          detailed_map[id_] = files
  \<close>
\<close>

fun build_detailed_map ::
  "node \<Rightarrow> bool \<Rightarrow> (pystr \<times> path) list \<Rightarrow> pystr list \<Rightarrow> (pystr \<times> pystr list) list
     \<Rightarrow> error + (pystr \<times> pystr list) list" where
  "build_detailed_map fs rec mapping [] detailed_map = Inr detailed_map"
| "build_detailed_map fs rec mapping (i # is) detailed_map =
     (case map_of mapping i of
        None \<Rightarrow> Inl KeyError
      | Some folder \<Rightarrow>
         (case list_files_in_folder fs folder rec of
            Inl e \<Rightarrow> Inl e
          | Inr files \<Rightarrow> build_detailed_map fs rec mapping is (AList.update i files detailed_map)))"

text \<open>
  Saving the manifests (the body of the loop is \<open>save_chunk_file\<close>):
  \<^verbatim>\<open>
          if args.save_chunks and not args.print_only:
              chunks_dir = Path(args.chunks_dir)
              chunks_dir.mkdir(parents=True, exist_ok=True)

              for idx, ch in enumerate(chunks, start=1):
                  chunk_name = f"{args.chunk_prefix}{idx}"
                  out_path = chunks_dir / f"{chunk_name}.{args.chunk_format}"
                  if args.chunk_format == "json":
                      save_chunk_json(ch, out_path)
                  else:
                      save_chunk_text(ch, out_path)
                  print(f"Saved chunk file: {out_path}")
  \<close>
\<close>

definition chunk_name_of :: "args \<Rightarrow> nat \<Rightarrow> pystr" where
  "chunk_name_of a idx = chunk_prefix a @ py_str idx"

definition manifest_path :: "args \<Rightarrow> nat \<Rightarrow> path" where
  "manifest_path a idx = chunks_dir a @ [chunk_name_of a idx @ [46] @ fmt_name (chunk_format a)]"

definition save_chunk_file :: "args \<Rightarrow> node \<Rightarrow> nat \<times> pystr list \<Rightarrow> outcome" where
  "save_chunk_file a fs ic =
     (if chunk_format a = Json then save_chunk_json fs (snd ic) (manifest_path a (fst ic))
      else save_chunk_text fs (snd ic) (manifest_path a (fst ic)))"

definition save_chunk_files :: "args \<Rightarrow> pystr list list \<Rightarrow> node \<Rightarrow> outcome" where
  "save_chunk_files a chunks fs =
     (if save_chunks a \<and> \<not> print_only a then
        and_then (mkdir_parents fs (chunks_dir a)) (for_each (save_chunk_file a) (enumerate1 chunks))
      else Finished fs)"

text \<open>
  Processing the chunks (the body of the loop is \<open>process_chunk\<close>, the dictionary
  comprehension is \<open>chunk_mapping_of\<close>):
  \<^verbatim>\<open>
          if args.process_chunks in ("copy", "move") and not args.print_only:
              if not args.process_dest:
                  raise ValueError("When using --process-chunks copy|move you must provide --process-dest")
              dest_root = Path(args.process_dest)
              dest_root.mkdir(parents=True, exist_ok=True)

              for idx, ch in enumerate(chunks, start=1):
                  chunk_name = f"{args.chunk_prefix}{idx}"
                  # build mapping for this chunk: ID -> Path
                  chunk_mapping = {id_: mapping[id_] for id_ in ch}
                  print(f"Processing chunk {idx} -> {chunk_name} ({len(chunk_mapping)} folders)")
                  if args.process_chunks == "copy":
                      copy_chunk_folders(chunk_mapping, dest_root, chunk_name)
                  else:
                      move_chunk_folders(chunk_mapping, dest_root, chunk_name)
  \<close>
\<close>

fun chunk_mapping_of ::
  "(pystr \<times> path) list \<Rightarrow> pystr list \<Rightarrow> (pystr \<times> path) list \<Rightarrow> error + (pystr \<times> path) list" where
  "chunk_mapping_of mapping [] chunk_mapping = Inr chunk_mapping"
| "chunk_mapping_of mapping (i # is) chunk_mapping =
     (case map_of mapping i of
        None \<Rightarrow> Inl KeyError
      | Some p \<Rightarrow> chunk_mapping_of mapping is (AList.update i p chunk_mapping))"

definition process_chunk ::
  "args \<Rightarrow> (pystr \<times> path) list \<Rightarrow> path \<Rightarrow> node \<Rightarrow> nat \<times> pystr list \<Rightarrow> outcome" where
  "process_chunk a mapping dest_root fs ic =
     (case chunk_mapping_of mapping (snd ic) [] of
        Inl e \<Rightarrow> Raised e fs
      | Inr chunk_mapping \<Rightarrow>
          if process_chunks a = Copy
          then copy_chunk_folders fs chunk_mapping dest_root (chunk_name_of a (fst ic))
          else move_chunk_folders fs chunk_mapping dest_root (chunk_name_of a (fst ic)))"

definition process_all_chunks ::
  "args \<Rightarrow> (pystr \<times> path) list \<Rightarrow> pystr list list \<Rightarrow> node \<Rightarrow> outcome" where
  "process_all_chunks a mapping chunks fs =
     (if (process_chunks a = Copy \<or> process_chunks a = Move) \<and> \<not> print_only a then
        (case process_dest a of
           None \<Rightarrow> Raised (ValueError ProcessDestMissing) fs
         | Some dest_root \<Rightarrow>
             and_then (mkdir_parents fs dest_root)
               (for_each (process_chunk a mapping dest_root) (enumerate1 chunks)))
      else Finished fs)"

text \<open>
  The aggregate manifest:
  \<^verbatim>\<open>
      if args.save_chunks and not args.chunk_size and not args.print_only:
          dest = Path(args.chunks_dir)
          dest.mkdir(parents=True, exist_ok=True)
          out_path = dest / "all_mapping.json"
          with out_path.open("w", encoding="utf-8") as fh:
              json.dump(detailed_map, fh, indent=2, ensure_ascii=False)
  \<close>
\<close>

definition save_all_mapping :: "args \<Rightarrow> (pystr \<times> pystr list) list \<Rightarrow> node \<Rightarrow> outcome" where
  "save_all_mapping a detailed_map fs =
     (if save_chunks a \<and> chunk_size a = 0 \<and> \<not> print_only a then
        and_then (mkdir_parents fs (chunks_dir a))
          (\<lambda>fs1. write_file fs1 (chunks_dir a @ [cp ''all_mapping.json'']) (json_dict detailed_map))
      else Finished fs)"

text \<open>
  \<^verbatim>\<open>main\<close>, without what it prints. After the identifiers are loaded and resolved:
  \<^verbatim>\<open>
      if args.chunk_size and args.chunk_size > 0:
          chunks = chunkify(existing_ids_in_order, args.chunk_size)
          ... save the chunk files, process the chunks ...
      else:
          print("\nChunking not requested (chunk-size <= 0).")
      ... save the aggregate manifest ...
  \<close>
\<close>

definition chunk_phase :: "args \<Rightarrow> (pystr \<times> path) list \<Rightarrow> pystr list \<Rightarrow> node \<Rightarrow> outcome" where
  "chunk_phase a mapping existing fs =
     (if chunk_size a \<noteq> 0 \<and> 0 < chunk_size a then
        (case chunkify existing (chunk_size a) of
           Inl e \<Rightarrow> Raised e fs
         | Inr chunks \<Rightarrow>
             and_then (save_chunk_files a chunks fs) (process_all_chunks a mapping chunks))
      else Finished fs)"

definition main :: "(pystr \<Rightarrow> pystr option \<Rightarrow> pystr list) \<Rightarrow> args \<Rightarrow> node \<Rightarrow> outcome" where
  "main read_csv a fs =
     (case load_ids read_csv fs (ids a) (csv_column a) of
        Inl e \<Rightarrow> Raised e fs
      | Inr loaded \<Rightarrow>
          if loaded = [] then Finished fs
          else
            (case map_ids_to_folders fs (source a) loaded of
               Inl e \<Rightarrow> Raised e fs
             | Inr mm \<Rightarrow>
                 (case build_detailed_map fs (recursive a) (fst mm)
                         (existing_ids_in_order loaded (fst mm)) [] of
                    Inl e \<Rightarrow> Raised e fs
                  | Inr detailed_map \<Rightarrow>
                      and_then (chunk_phase a (fst mm) (existing_ids_in_order loaded (fst mm)) fs)
                        (save_all_mapping a detailed_map))))"

section \<open>An example run\<close>

text \<open>
  The inputs of the example runs below. The source root \<^verbatim>\<open>/data\<close> holds the
  directories \<^verbatim>\<open>A\<close>, \<^verbatim>\<open>B\<close> and \<^verbatim>\<open>C\<close>; \<^verbatim>\<open>/ids.txt\<close> lists the three
  identifiers; \<^verbatim>\<open>/chunks\<close> holds the given entries. The arguments ask for chunks of
  one identifier and for structured manifests. No CSV file is read.
\<close>

definition no_csv :: "pystr \<Rightarrow> pystr option \<Rightarrow> pystr list" where
  "no_csv content column = []"

definition demo_args :: args where
  "demo_args =
     \<lparr>source = [cp ''data''], ids = [cp ''ids.txt''], csv_column = None, recursive = True,
      chunk_size = 1, save_chunks = True, chunk_format = Json, chunk_prefix = cp ''chunk_'',
      chunks_dir = [cp ''chunks''], process_chunks = NoProcessing, process_dest = None,
      print_only = False\<rparr>"

definition demo_fs :: "(pystr \<times> node) list \<Rightarrow> node" where
  "demo_fs manifests =
     Dir [(cp ''data'', Dir [(cp ''A'', Dir [(cp ''f'', File (cp ''x''))]),
                             (cp ''B'', Dir []),
                             (cp ''C'', Dir [])]),
          (cp ''ids.txt'', File (cp ''A'' @ [10] @ cp ''B'' @ [10] @ cp ''C'' @ [10])),
          (cp ''chunks'', Dir manifests)]"

chapter \<open>Properties\<close>

section \<open>The file system\<close>

lemma lookup_place_same:
  "p \<noteq> [] \<Longrightarrow> lookup fs (butlast p) = Some (Dir es) \<Longrightarrow> lookup (place p new fs) p = Some new"
proof (induction p arbitrary: fs)
  case Nil
  then show ?case by simp
next
  case (Cons x xs)
  show ?case
  proof (cases xs)
    case Nil
    with Cons.prems show ?thesis by (simp add: update_conv')
  next
    case (Cons y ys)
    with Cons.prems obtain es0 c where fs: "fs = Dir es0" and c: "map_of es0 x = Some c"
      and l: "lookup c (butlast xs) = Some (Dir es)"
      by (cases fs) (auto split: option.splits)
    from Cons have "xs \<noteq> []" by simp
    then have "lookup (place xs new c) xs = Some new" using l by (rule Cons.IH)
    with fs c Cons show ?thesis by (simp add: update_conv')
  qed
qed

lemma write_file_content:
  assumes "write_file fs p content = Finished fs'"
  shows "lookup fs' p = Some (File content)"
proof -
  from assms obtain es where par: "lookup fs (parent p) = Some (Dir es)"
    and fs': "fs' = place p (File content) fs" and nd: "\<forall>ds. lookup fs p \<noteq> Some (Dir ds)"
    by (auto simp: write_file_def split: option.splits node.splits)
  have ne: "p \<noteq> []"
  proof
    assume "p = []"
    with par nd show False by (simp add: parent_def)
  qed
  from par have "lookup fs (butlast p) = Some (Dir es)" by (simp add: parent_def)
  with ne show ?thesis unfolding fs' by (rule lookup_place_same)
qed

lemma lookup_place_other:
  "\<not> prefix p q \<Longrightarrow> \<not> prefix q p \<Longrightarrow> lookup (place p new fs) q = lookup fs q"
proof (induction p arbitrary: q fs)
  case Nil
  then show ?case by simp
next
  case (Cons x xs)
  from Cons.prems obtain y ys where q: "q = y # ys" by (cases q) auto
  show ?case
  proof (cases fs)
    case (File c)
    then show ?thesis by simp
  next
    case (Dir es)
    show ?thesis
    proof (cases "x = y")
      case False
      with Dir q show ?thesis by (simp add: update_conv' split: option.splits)
    next
      case True
      with Cons.prems q have u: "\<not> prefix xs ys" "\<not> prefix ys xs" by simp_all
      then have "xs \<noteq> []" by auto
      with Dir q True u Cons.IH [OF u] show ?thesis
        by (simp add: update_conv' split: option.splits)
    qed
  qed
qed

lemma lookup_remove_same: "p \<noteq> [] \<Longrightarrow> lookup (remove p fs) p = None"
proof (induction p arbitrary: fs)
  case Nil
  then show ?case by simp
next
  case (Cons x xs)
  show ?case
  proof (cases fs)
    case (File c)
    then show ?thesis by simp
  next
    case (Dir es)
    show ?thesis
    proof (cases "xs = []")
      case True
      with Dir show ?thesis by (simp add: delete_conv')
    next
      case False
      with Dir Cons.IH [OF False] show ?thesis
        by (simp add: update_conv' split: option.splits)
    qed
  qed
qed

lemma lookup_remove_other:
  "\<not> prefix p q \<Longrightarrow> \<not> prefix q p \<Longrightarrow> lookup (remove p fs) q = lookup fs q"
proof (induction p arbitrary: q fs)
  case Nil
  then show ?case by simp
next
  case (Cons x xs)
  from Cons.prems obtain y ys where q: "q = y # ys" by (cases q) auto
  show ?case
  proof (cases fs)
    case (File c)
    then show ?thesis by simp
  next
    case (Dir es)
    show ?thesis
    proof (cases "x = y")
      case False
      with Dir q show ?thesis by (simp add: update_conv' delete_conv' split: option.splits)
    next
      case True
      with Cons.prems q have u: "\<not> prefix xs ys" "\<not> prefix ys xs" by simp_all
      then have "xs \<noteq> []" by auto
      with Dir q True u Cons.IH [OF u] show ?thesis
        by (simp add: update_conv' split: option.splits)
    qed
  qed
qed

lemma lookup_append:
  "lookup fs (p @ q) = (case lookup fs p of None \<Rightarrow> None | Some n \<Rightarrow> lookup n q)"
proof (induction p arbitrary: fs)
  case Nil
  then show ?case by simp
next
  case (Cons x xs)
  then show ?case by (cases fs) (simp_all split: option.splits)
qed

lemma lookup_prefix: "prefix p q \<Longrightarrow> lookup fs p = None \<Longrightarrow> lookup fs q = None"
  by (auto simp: prefix_def lookup_append)

lemma remove_keeps_dir: "\<not> prefix p q \<Longrightarrow> is_dir fs q \<Longrightarrow> is_dir (remove p fs) q"
proof (induction p arbitrary: q fs)
  case Nil
  then show ?case by simp
next
  case (Cons x xs)
  show ?case
  proof (cases fs)
    case (File c)
    with Cons.prems show ?thesis by simp
  next
    case (Dir es)
    show ?thesis
    proof (cases q)
      case Nil
      with Dir show ?thesis by (simp add: is_dir_def split: option.splits)
    next
      case q: (Cons y ys)
      show ?thesis
      proof (cases "x = y")
        case False
        with Dir q Cons.prems show ?thesis
          by (simp add: is_dir_def update_conv' delete_conv' split: option.splits)
      next
        case True
        with Cons.prems q have u: "\<not> prefix xs ys" by simp
        then have ne: "xs \<noteq> []" by auto
        from Cons.prems Dir q True obtain c where c: "map_of es y = Some c" and d: "is_dir c ys"
          by (auto simp: is_dir_def split: option.splits)
        from Cons.IH [OF u d] have "is_dir (remove xs c) ys" .
        with Dir q True ne c show ?thesis
          by (simp add: is_dir_def update_conv')
      qed
    qed
  qed
qed

lemma mkdirs_existing: "lookup fs p = Some (Dir es) \<Longrightarrow> mkdirs p fs = Inr fs"
proof (induction p arbitrary: fs)
  case Nil
  then show ?case by simp
next
  case (Cons x xs)
  then show ?case
    by (cases fs) (auto simp: update_triv split: option.splits)
qed

lemma is_dir_lookup: "is_dir fs p \<longleftrightarrow> (\<exists>es. lookup fs p = Some (Dir es))"
  by (auto simp: is_dir_def split: option.splits node.splits)

lemma mkdir_parents_existing: "is_dir fs p \<Longrightarrow> mkdir_parents fs p = Finished fs"
  by (auto simp: is_dir_lookup mkdir_parents_def mkdirs_existing)

lemma remove_existing_cases:
  "remove_existing fs t = (if lookup fs t = None then Finished fs else Finished (remove t fs))"
  by (auto simp: remove_existing_def path_exists_def is_dir_def rmtree_def unlink_def
      split: option.splits node.splits)

lemma remove_existing_gone:
  "t \<noteq> [] \<Longrightarrow> remove_existing fs t = Finished fs1 \<Longrightarrow> lookup fs1 t = None"
  by (auto simp: remove_existing_cases lookup_remove_same split: if_splits)

lemma remove_existing_other:
  "\<not> prefix t q \<Longrightarrow> \<not> prefix q t \<Longrightarrow> remove_existing fs t = Finished fs1 \<Longrightarrow> lookup fs1 q = lookup fs q"
  by (auto simp: remove_existing_cases lookup_remove_other split: if_splits)

lemma remove_existing_keeps_dir:
  "\<not> prefix t q \<Longrightarrow> is_dir fs q \<Longrightarrow> remove_existing fs t = Finished fs1 \<Longrightarrow> is_dir fs1 q"
  by (auto simp: remove_existing_cases remove_keeps_dir split: if_splits)

section \<open>Chunker\<close>

lemma py_range_concat:
  "0 < k \<Longrightarrow> concat (map (\<lambda>j. slice xs j (j + k)) (py_range i (length xs) k)) = drop i xs"
proof (induction i "length xs" k rule: py_range.induct)
  case (1 i step)
  show ?case
  proof (cases "length xs \<le> i")
    case True
    then show ?thesis by (simp add: py_range.simps [of i])
  next
    case False
    with 1 have "concat (map (\<lambda>j. slice xs j (j + step)) (py_range (i + step) (length xs) step))
                 = drop (i + step) xs"
      by simp
    moreover have "take step (drop i xs) @ drop (i + step) xs = drop i xs"
      by (metis add.commute append_take_drop_id drop_drop)
    ultimately show ?thesis using False 1(2)
      by (simp add: py_range.simps [of i] slice_def)
  qed
qed

lemma count_step:
  fixes n i step :: nat
  assumes "0 < step" "i < n"
  shows "(n - i + step - 1) div step = Suc ((n - (i + step) + step - 1) div step)"
proof (cases "i + step \<le> n")
  case True
  then have "n - i + step - 1 = (n - (i + step) + step - 1) + step" using assms by arith
  then have "(n - i + step - 1) div step = ((n - (i + step) + step - 1) + step) div step"
    by (rule arg_cong)
  also have "\<dots> = (n - (i + step) + step - 1) div step + 1"
    using assms by (intro div_add_self2) simp
  finally show ?thesis by (simp only: Suc_eq_plus1)
next
  case False
  then have z: "n - (i + step) = 0" by simp
  have a: "step * 1 \<le> n - i + step - 1" using assms False by simp
  have b: "n - i + step - 1 < step * Suc 1" using assms False by simp
  from a b have "(n - i + step - 1) div step = 1"
    by (rule div_nat_eqI)
  with z show ?thesis using assms by simp
qed

text \<open>The starts \<^verbatim>\<open>range(i, n, k)\<close> are \<open>i\<close>, \<open>i + k\<close>, \<open>i + 2k\<close>, and so on.\<close>

lemma py_range_map:
  "0 < k \<Longrightarrow> py_range i n k = map (\<lambda>t. i + t * k) [0..<(n - i + k - 1) div k]"
proof (induction i n k rule: py_range.induct)
  case (1 i n step)
  show ?case
  proof (cases "n \<le> i")
    case True
    with 1(2) show ?thesis by (simp add: py_range.simps [of i])
  next
    case False
    then have d: "(n - i + step - 1) div step = Suc ((n - (i + step) + step - 1) div step)"
      using 1(2) by (intro count_step) simp_all
    from False 1 have ih: "py_range (i + step) n step
        = map (\<lambda>t. i + step + t * step) [0..<(n - (i + step) + step - 1) div step]"
      by simp
    have up: "[0..<Suc m] = 0 # map Suc [0..<m]" for m
      by (simp add: upt_conv_Cons map_Suc_upt del: upt_Suc)
    have "py_range i n step = i # py_range (i + step) n step"
      using False 1(2) by (subst py_range.simps) simp
    also have "\<dots> = i # map (\<lambda>t. i + step + t * step) [0..<(n - (i + step) + step - 1) div step]"
      by (simp only: ih)
    also have "\<dots> = map (\<lambda>t. i + t * step) (0 # map Suc [0..<(n - (i + step) + step - 1) div step])"
      by (simp add: o_def add.assoc)
    also have "\<dots> = map (\<lambda>t. i + t * step) [0..<(n - i + step - 1) div step]"
      by (simp only: d up)
    finally show ?thesis .
  qed
qed

lemma ceiling_count:
  fixes n k :: nat
  assumes "0 < k"
  shows "\<lceil>real n / real k\<rceil> = int ((n + k - 1) div k)"
proof (rule ceiling_unique)
  let ?q = "(n + k - 1) div k"
  have 1: "?q * k \<le> n + k - 1" by simp
  have 2: "n + k - 1 < k + ?q * k" using assms by (rule dividend_less_div_times)
  from 2 assms have "n \<le> ?q * k" by arith
  then have "real n \<le> real (?q * k)" by (simp only: of_nat_le_iff)
  then show "real n / real k \<le> real_of_int (int ?q)" using assms by (simp add: field_simps)
  from 1 assms have "?q * k < n + k" by arith
  then have "real (?q * k) < real (n + k)" by (simp only: of_nat_less_iff)
  then show "real_of_int (int ?q) - 1 < real n / real k" using assms by (simp add: field_simps)
qed

lemma chunkify_eq:
  assumes "0 < csize"
  shows "chunkify items csize =
     Inr (map (\<lambda>t. take (nat csize) (drop (t * nat csize) items))
              [0..<(length items + nat csize - 1) div nat csize])"
  using assms by (simp add: chunkify_def py_range_map slice_def o_def)

lemma full_chunks:
  fixes n k t :: nat
  assumes "0 < k" "Suc t < (n + k - 1) div k"
  shows "k \<le> n - t * k"
proof -
  let ?q = "(n + k - 1) div k"
  have "Suc (Suc t) \<le> ?q" using assms by simp
  then have "Suc (Suc t) * k \<le> ?q * k" by (rule mult_le_mono1)
  also have "?q * k \<le> n + k - 1" by simp
  finally have "t * k + k + k \<le> n + k - 1" by (simp add: add.commute add.left_commute)
  with assms show ?thesis by arith
qed

lemma last_chunk:
  fixes n k :: nat
  assumes "0 < k" "0 < (n + k - 1) div k"
  shows "min k (n - ((n + k - 1) div k - 1) * k) = (if n mod k = 0 then k else n mod k)"
proof -
  let ?q = "(n + k - 1) div k"
  have n: "n = n div k * k + n mod k" by simp
  show ?thesis
  proof (cases "n mod k = 0")
    case True
    then have nk: "n = n div k * k" using n by simp
    have "(n div k * k + (k - 1)) div k = n div k + (k - 1) div k"
      using assms(1) by (intro div_mult_self3) simp
    moreover have "(k - 1) div k = 0" using assms(1) by simp
    moreover have "n + k - 1 = n div k * k + (k - 1)" using nk assms(1) by arith
    ultimately have q: "?q = n div k" by simp
    with assms(2) have "0 < n div k" by simp
    then obtain m where m: "n div k = Suc m" by (cases "n div k") auto
    with nk have "n = m * k + k" by simp
    then have "n - m * k = k" by simp
    with q m True show ?thesis by simp
  next
    case False
    then have r: "0 < n mod k" "n mod k < k" using assms(1) by simp_all
    have "n div k * k + n mod k + k - 1 = (n mod k - 1) + (n div k * k + k)" using r by arith
    then have "n + k - 1 = (n mod k - 1) + Suc (n div k) * k" by (simp add: add.commute)
    then have "?q = (n mod k - 1 + Suc (n div k) * k) div k" by (rule arg_cong)
    also have "\<dots> = Suc (n div k) + (n mod k - 1) div k"
      using assms(1) by (intro div_mult_self1) simp
    also have "(n mod k - 1) div k = 0" using r by simp
    finally have q: "?q = Suc (n div k)" by simp
    have "n - n div k * k = n mod k" by (rule minus_div_mult_eq_mod)
    with q r False show ?thesis by simp
  qed
qed

text \<open>
  Claim C3. For a list of \<open>n\<close> elements and a positive chunk size \<open>csize\<close>, \<open>chunkify\<close>
  returns \<open>\<lceil>n / csize\<rceil>\<close> chunks; every chunk but the last has \<open>csize\<close>
  elements; the last has \<open>n mod csize\<close> elements, or \<open>csize\<close> when \<open>n\<close> is a
  multiple of it; and the chunks, concatenated in order, are the input list.
\<close>

theorem chunkify_partition:
  assumes "0 < csize"
  shows "\<exists>chunks. chunkify items csize = Inr chunks
     \<and> int (length chunks) = \<lceil>real (length items) / real_of_int csize\<rceil>
     \<and> (\<forall>t. Suc t < length chunks \<longrightarrow> length (chunks ! t) = nat csize)
     \<and> (chunks \<noteq> [] \<longrightarrow> length (last chunks) =
           (if length items mod nat csize = 0 then nat csize
            else length items mod nat csize))
     \<and> concat chunks = items"
proof -
  define k where "k = nat csize"
  define n where "n = length items"
  define q where "q = (n + k - 1) div k"
  define chunks where "chunks = map (\<lambda>t. take k (drop (t * k) items)) [0..<q]"
  have k: "0 < k" using assms by (simp add: k_def)
  have res: "chunkify items csize = Inr chunks"
    using assms by (simp add: chunkify_eq chunks_def k_def q_def n_def)
  have len: "length chunks = q" by (simp add: chunks_def)
  have "real_of_int csize = real k" using assms by (simp add: k_def)
  then have c1: "int (length chunks) = \<lceil>real (length items) / real_of_int csize\<rceil>"
    using ceiling_count [OF k, of n] by (simp add: len q_def n_def)
  have c2: "\<forall>t. Suc t < length chunks \<longrightarrow> length (chunks ! t) = nat csize"
  proof (intro allI impI)
    fix t assume t: "Suc t < length chunks"
    then have "k \<le> n - t * k" using full_chunks [OF k, of t n] by (simp add: len q_def)
    with t show "length (chunks ! t) = nat csize"
      by (simp add: chunks_def k_def n_def)
  qed
  have c3: "chunks \<noteq> [] \<longrightarrow> length (last chunks) =
           (if length items mod nat csize = 0 then nat csize
            else length items mod nat csize)"
  proof
    assume ne: "chunks \<noteq> []"
    then have q0: "0 < q" using len by auto
    then have "last chunks = take k (drop ((q - 1) * k) items)"
      by (simp add: chunks_def last_map last_upt)
    then have "length (last chunks) = min k (n - (q - 1) * k)" by (simp add: n_def min.commute)
    also have "\<dots> = (if n mod k = 0 then k else n mod k)"
      using last_chunk [OF k, of n] q0 by (simp add: q_def)
    finally show "length (last chunks) =
           (if length items mod nat csize = 0 then nat csize
            else length items mod nat csize)" by (simp add: n_def k_def)
  qed
  have "chunkify items csize
        = Inr (map (\<lambda>i. slice items i (i + k)) (py_range 0 (length items) k))"
    using assms by (simp add: chunkify_def k_def)
  with res have "chunks = map (\<lambda>i. slice items i (i + k)) (py_range 0 (length items) k)" by simp
  then have c4: "concat chunks = items" using py_range_concat [OF k, of items 0] by simp
  from res c1 c2 c3 c4 show ?thesis by blast
qed

text \<open>Five elements in chunks of two: three chunks, the last of one element.\<close>

theorem chunkify_partition_witness:
  "\<exists>chunks. chunkify [1, 2, 3, 4, 5 :: nat] 2 = Inr chunks
     \<and> chunks = [[1, 2], [3, 4], [5]]
     \<and> int (length chunks) = \<lceil>real (length [1, 2, 3, 4, 5 :: nat]) / real_of_int 2\<rceil>
     \<and> length (chunks ! 0) = 2 \<and> length (chunks ! 1) = 2
     \<and> length (last chunks) = 1
     \<and> concat chunks = [1, 2, 3, 4, 5]"
proof -
  have pos: "(0::int) < 2" by simp
  have val: "chunkify [1, 2, 3, 4, 5 :: nat] 2 = Inr [[1, 2], [3, 4], [5]]"
    by (simp add: chunkify_def slice_def py_range.simps)
  from chunkify_partition [OF pos, of "[1, 2, 3, 4, 5 :: nat]"] val show ?thesis
    by auto
qed

text \<open>
  Claim C8. For every input list (empty or not) and every \<open>csize \<le> 0\<close>,
  \<open>chunkify\<close> raises the \<^verbatim>\<open>ValueError\<close> for the chunk size (the spec's
  InvalidChunkSize) and returns no chunk sequence.
\<close>

theorem chunkify_rejects_nonpositive:
  "csize \<le> 0 \<Longrightarrow> chunkify items csize = Inl (ValueError ChunkSizeNotPositive)"
  by (simp add: chunkify_def)

theorem chunkify_rejects_nonpositive_witness:
  "chunkify [cp ''A'', cp ''B''] 0 = Inl (ValueError ChunkSizeNotPositive)
   \<and> chunkify [cp ''A''] (- 3) = Inl (ValueError ChunkSizeNotPositive)"
  using chunkify_rejects_nonpositive [of 0 "[cp ''A'', cp ''B'']"]
        chunkify_rejects_nonpositive [of "- 3" "[cp ''A'']"]
  by simp

section \<open>Resolver\<close>

lemma exists_and_is_dir: "(path_exists fs p \<and> is_dir fs p) = is_dir fs p"
  by (auto simp: path_exists_def is_dir_def split: option.splits)

lemma is_dir_exists: "is_dir fs p \<Longrightarrow> path_exists fs p"
  using exists_and_is_dir [of fs p] by simp

lemma resolve_ids_Cons:
  "resolve_ids fs src (i # idents) m miss =
     (if is_dir fs (src @ [i])
      then resolve_ids fs src idents (AList.update i (src @ [i]) m) miss
      else resolve_ids fs src idents m (miss @ [i]))"
  by (simp add: is_dir_exists)

lemma dict_contains_Nil: "dict_contains [] k = False"
  by (simp add: dict_contains_def)

lemma resolve_ids_missing:
  "snd (resolve_ids fs src idents m miss) = miss @ filter (\<lambda>i. \<not> is_dir fs (src @ [i])) idents"
  by (induction idents arbitrary: m miss) (simp_all add: exists_and_is_dir)

lemma resolve_ids_contains:
  "dict_contains (fst (resolve_ids fs src idents m miss)) i
     \<longleftrightarrow> dict_contains m i \<or> (i \<in> set idents \<and> is_dir fs (src @ [i]))"
  by (induction idents arbitrary: m miss)
     (auto simp: exists_and_is_dir dict_contains_def update_conv')

lemma resolve_ids_distinct:
  "distinct (map fst m) \<Longrightarrow> distinct (map fst (fst (resolve_ids fs src idents m miss)))"
  by (induction idents arbitrary: m miss) (simp_all add: distinct_update)

lemma resolve_ids_keys:
  "set (map fst (fst (resolve_ids fs src idents m miss)))
     = set (map fst m) \<union> set (filter (\<lambda>i. is_dir fs (src @ [i])) idents)"
  by (induction idents arbitrary: m miss) (auto simp: exists_and_is_dir dom_update)

lemma resolve_ids_values:
  assumes "\<And>i p. map_of m i = Some p \<Longrightarrow> p = src @ [i] \<and> is_dir fs p"
    and "map_of (fst (resolve_ids fs src idents m miss)) i = Some p"
  shows "p = src @ [i] \<and> is_dir fs p"
  using assms
proof (induction idents arbitrary: m miss)
  case Nil
  then show ?case by simp
next
  case (Cons a idents)
  show ?case
  proof (cases "is_dir fs (src @ [a])")
    case True
    have "\<And>j q. map_of (AList.update a (src @ [a]) m) j = Some q \<Longrightarrow> q = src @ [j] \<and> is_dir fs q"
      using True Cons.prems(1) by (auto simp: update_conv' split: if_splits)
    moreover have "map_of (fst (resolve_ids fs src idents (AList.update a (src @ [a]) m) miss)) i = Some p"
      using Cons.prems(2) True by (simp add: is_dir_exists)
    ultimately show ?thesis by (rule Cons.IH)
  next
    case False
    with Cons.prems(2) have "map_of (fst (resolve_ids fs src idents m (miss @ [a]))) i = Some p"
      by (simp add: exists_and_is_dir)
    with Cons.prems(1) show ?thesis by (rule Cons.IH)
  qed
qed

lemma interleave_filter:
  "interleave_by_index (map P xs) (filter P xs) (filter (\<lambda>x. \<not> P x) xs) = xs"
  by (induction xs) auto

text \<open>
  Claim C4, as amended. For a source root that is a directory and every input sequence of
  identifiers, \<open>map_ids_to_folders\<close> returns a mapping and the list \<open>missing\<close>.
  \<open>missing\<close> is the unresolved identifiers of the input, in input order; the resolved
  sequence \<^verbatim>\<open>existing_ids_in_order\<close> that \<^verbatim>\<open>main\<close> derives from the mapping is the
  resolved identifiers of the input (those that name a directory below the source root), in
  input order; the two lengths add up to the length of the input, and interleaving the two
  sequences by original index gives the input back. The mapping is a dictionary: it holds
  one entry per distinct resolved identifier, so \<^verbatim>\<open>len(mapping) + len(missing)\<close> is
  \<^verbatim>\<open>len(input)\<close> exactly when no resolved identifier is repeated in the input.
\<close>

theorem resolver_partition:
  assumes "is_dir fs src"
  shows "\<exists>mapping missing. map_ids_to_folders fs src idents = Inr (mapping, missing)
     \<and> existing_ids_in_order idents mapping = filter (\<lambda>i. is_dir fs (src @ [i])) idents
     \<and> missing = filter (\<lambda>i. \<not> is_dir fs (src @ [i])) idents
     \<and> length (existing_ids_in_order idents mapping) + length missing = length idents
     \<and> interleave_by_index (map (\<lambda>i. is_dir fs (src @ [i])) idents)
           (existing_ids_in_order idents mapping) missing = idents
     \<and> distinct (map fst mapping)
     \<and> set (map fst mapping) = set (existing_ids_in_order idents mapping)
     \<and> (length mapping + length missing = length idents
          \<longleftrightarrow> distinct (existing_ids_in_order idents mapping))"
proof -
  let ?P = "\<lambda>i. is_dir fs (src @ [i])"
  define mapping where "mapping = fst (resolve_ids fs src idents [] [])"
  define missing where "missing = snd (resolve_ids fs src idents [] [])"
  have res: "map_ids_to_folders fs src idents = Inr (mapping, missing)"
    using assms exists_and_is_dir [of fs src]
    by (simp add: map_ids_to_folders_def mapping_def missing_def)
  have "dict_contains mapping i \<longleftrightarrow> i \<in> set idents \<and> ?P i" for i
    unfolding mapping_def by (simp add: resolve_ids_contains dict_contains_Nil)
  then have ex: "existing_ids_in_order idents mapping = filter ?P idents"
    unfolding existing_ids_in_order_def by (intro filter_cong) auto
  have mi: "missing = filter (\<lambda>i. \<not> ?P i) idents"
    unfolding missing_def by (simp add: resolve_ids_missing)
  have len: "length (existing_ids_in_order idents mapping) + length missing = length idents"
    unfolding ex mi by (rule sum_length_filter_compl)
  have il: "interleave_by_index (map ?P idents) (existing_ids_in_order idents mapping) missing = idents"
    unfolding ex mi by (rule interleave_filter)
  have di: "distinct (map fst mapping)"
    unfolding mapping_def by (rule resolve_ids_distinct) simp
  have "set (map fst mapping) = set (filter ?P idents)"
    unfolding mapping_def using resolve_ids_keys [of fs src idents "[]" "[]"] by simp
  then have ks: "set (map fst mapping) = set (existing_ids_in_order idents mapping)"
    by (simp only: ex)
  have "length mapping = card (set (existing_ids_in_order idents mapping))"
    using di ks by (metis distinct_card length_map)
  then have eq: "length mapping + length missing = length idents
          \<longleftrightarrow> distinct (existing_ids_in_order idents mapping)"
    using len card_distinct distinct_card
    by (metis add_right_cancel)
  from res ex mi len il di ks eq show ?thesis by blast
qed

text \<open>Below \<^verbatim>\<open>/data\<close> there are a directory \<^verbatim>\<open>A\<close> and a file \<^verbatim>\<open>B\<close>; the
  input is \<^verbatim>\<open>B, A, C\<close>.\<close>

theorem resolver_partition_witness:
  "map_ids_to_folders (Dir [(cp ''data'', Dir [(cp ''A'', Dir []), (cp ''B'', File [])])])
       [cp ''data''] [cp ''B'', cp ''A'', cp ''C'']
     = Inr ([(cp ''A'', [cp ''data'', cp ''A''])], [cp ''B'', cp ''C''])
   \<and> existing_ids_in_order [cp ''B'', cp ''A'', cp ''C''] [(cp ''A'', [cp ''data'', cp ''A''])]
       = [cp ''A'']
   \<and> interleave_by_index [False, True, False] [cp ''A''] [cp ''B'', cp ''C'']
       = [cp ''B'', cp ''A'', cp ''C'']"
proof -
  have d: "is_dir (Dir [(cp ''data'', Dir [(cp ''A'', Dir []), (cp ''B'', File [])])]) [cp ''data'']"
    by (simp add: is_dir_def)
  from resolver_partition [OF d, of "[cp ''B'', cp ''A'', cp ''C'']"] show ?thesis
    by (simp add: map_ids_to_folders_def path_exists_def is_dir_def cp_def
        existing_ids_in_order_def dict_contains_def)
qed

text \<open>
  The claim as stated fails when a resolved identifier is repeated: for the input
  \<^verbatim>\<open>A, A\<close> the mapping has one entry and nothing is missing, so the two lengths add up
  to 1, not 2.
\<close>

theorem resolver_length_counterexample:
  "map_ids_to_folders (Dir [(cp ''data'', Dir [(cp ''A'', Dir [])])]) [cp ''data''] [cp ''A'', cp ''A'']
     = Inr ([(cp ''A'', [cp ''data'', cp ''A''])], [])
   \<and> length [(cp ''A'', [cp ''data'', cp ''A''])] + length ([] :: pystr list)
       \<noteq> length [cp ''A'', cp ''A'']"
  by (simp add: map_ids_to_folders_def path_exists_def is_dir_def cp_def)

section \<open>Line-delimited manifests\<close>

lemma save_chunk_text_content:
  "save_chunk_text fs chunk p = Finished fs' \<Longrightarrow> lookup fs' p = Some (File (chunk_text chunk))"
  unfolding save_chunk_text_def
  by (cases "mkdir_parents fs (parent p)") (auto dest: write_file_content)

lemma universal_newlines_id: "13 \<notin> set s \<Longrightarrow> universal_newlines s = s"
  by (induction s rule: universal_newlines.induct) auto

lemma universal_newlines_no_cr: "13 \<notin> set (universal_newlines s)"
  by (induction s rule: universal_newlines.induct) auto

lemma readlines_line: "10 \<notin> set s \<Longrightarrow> readlines (s @ 10 # rest) = (s @ [10]) # readlines rest"
  by (induction s) auto

lemma readlines_chunk_text:
  "\<forall>s \<in> set chunk. 10 \<notin> set s \<Longrightarrow> readlines (chunk_text chunk) = map (\<lambda>s. s @ [10]) chunk"
  by (induction chunk) (simp_all add: chunk_text_def readlines_line)

lemma readlines_shape:
  "l \<in> set (readlines z) \<Longrightarrow> \<exists>b. (l = b @ [10] \<or> l = b) \<and> 10 \<notin> set b \<and> set b \<subseteq> set z"
proof (induction z arbitrary: l)
  case Nil
  then show ?case by simp
next
  case (Cons c cs)
  show ?case
  proof (cases "c = 10")
    case True
    with Cons.prems have "l = [10] \<or> l \<in> set (readlines cs)" by simp
    then show ?thesis
    proof
      assume "l = [10]"
      then have "(l = [] @ [10] \<or> l = []) \<and> 10 \<notin> set ([]::pystr) \<and> set ([]::pystr) \<subseteq> set (c # cs)" by simp
      then show ?thesis by blast
    next
      assume "l \<in> set (readlines cs)"
      from Cons.IH [OF this] show ?thesis by auto
    qed
  next
    case False
    show ?thesis
    proof (cases "readlines cs")
      case Nil
      with False Cons.prems have "l = [c]" by simp
      with False have "(l = [c] @ [10] \<or> l = [c]) \<and> 10 \<notin> set [c] \<and> set [c] \<subseteq> set (c # cs)" by simp
      then show ?thesis by blast
    next
      case (Cons l0 ls)
      with False Cons.prems have "l = c # l0 \<or> l \<in> set ls" by simp
      then show ?thesis
      proof
        assume l: "l = c # l0"
        have "l0 \<in> set (readlines cs)" using Cons by simp
        from Cons.IH [OF this] obtain b where b: "(l0 = b @ [10] \<or> l0 = b)" "10 \<notin> set b" "set b \<subseteq> set cs"
          by blast
        with l False have "(l = (c # b) @ [10] \<or> l = c # b) \<and> 10 \<notin> set (c # b) \<and> set (c # b) \<subseteq> set (c # cs)"
          by auto
        then show ?thesis by blast
      next
        assume "l \<in> set ls"
        then have "l \<in> set (readlines cs)" using Cons by simp
        from Cons.IH [OF this] show ?thesis by auto
      qed
    qed
  qed
qed

lemma strip_append_space: "py_isspace c \<Longrightarrow> strip (s @ [c]) = strip s"
proof (cases "\<forall>x \<in> set s. py_isspace x")
  case True
  assume "py_isspace c"
  with True have a: "dropWhile py_isspace (s @ [c]) = []" and b: "dropWhile py_isspace s = []"
    by (simp_all add: dropWhile_eq_Nil_conv)
  show ?thesis unfolding strip_def a b by simp
next
  case False
  assume c: "py_isspace c"
  from False obtain x where "x \<in> set s" "\<not> py_isspace x" by blast
  then have "dropWhile py_isspace (s @ [c]) = dropWhile py_isspace s @ [c]"
    by (rule dropWhile_append1)
  with c show ?thesis by (simp add: strip_def)
qed

lemma set_strip: "set (strip s) \<subseteq> set s"
proof -
  have "set (strip s) \<subseteq> set (rev (dropWhile py_isspace s))"
    unfolding strip_def set_rev by (auto dest: set_dropWhileD)
  also have "\<dots> \<subseteq> set s" by (auto dest: set_dropWhileD)
  finally show ?thesis .
qed

lemma dropWhile_id: "xs = [] \<or> \<not> P (hd xs) \<Longrightarrow> dropWhile P xs = xs"
  by (cases xs) auto

lemma last_dropWhile: "dropWhile P xs \<noteq> [] \<Longrightarrow> last (dropWhile P xs) = last xs"
  by (metis last_appendR takeWhile_dropWhile_id)

lemma strip_ends: "strip s \<noteq> [] \<Longrightarrow> \<not> py_isspace (hd (strip s)) \<and> \<not> py_isspace (last (strip s))"
proof -
  assume ne: "strip s \<noteq> []"
  define u where "u = dropWhile py_isspace s"
  define v where "v = dropWhile py_isspace (rev u)"
  have t: "strip s = rev v" by (simp add: strip_def u_def v_def)
  with ne have v: "v \<noteq> []" by simp
  then have "rev u \<noteq> []" unfolding v_def by auto
  then have u: "u \<noteq> []" by simp
  have "\<not> py_isspace (hd v)" using v unfolding v_def by (rule hd_dropWhile)
  moreover have "last v = last (rev u)" using v unfolding v_def by (rule last_dropWhile)
  then have "last v = hd u" using u by (simp add: last_rev)
  moreover have "\<not> py_isspace (hd u)" using u unfolding u_def by (rule hd_dropWhile)
  ultimately show ?thesis using t v by (simp add: hd_rev last_rev)
qed

lemma strip_fixed_iff: "strip s = s \<longleftrightarrow> s = [] \<or> (\<not> py_isspace (hd s) \<and> \<not> py_isspace (last s))"
proof
  assume "strip s = s"
  then show "s = [] \<or> (\<not> py_isspace (hd s) \<and> \<not> py_isspace (last s))"
    using strip_ends [of s] by auto
next
  assume a: "s = [] \<or> (\<not> py_isspace (hd s) \<and> \<not> py_isspace (last s))"
  then have 1: "dropWhile py_isspace s = s" by (intro dropWhile_id) auto
  from a have "rev s = [] \<or> \<not> py_isspace (hd (rev s))" by (auto simp: hd_rev)
  then have "dropWhile py_isspace (rev s) = rev s" by (rule dropWhile_id)
  with 1 show "strip s = s" by (simp add: strip_def)
qed

lemma strip_idem: "strip (strip s) = strip s"
  using strip_ends [of s] by (subst strip_fixed_iff) blast

lemma space_10: "py_isspace 10" by (simp add: py_isspace_def)

lemma ids_of_text_plain: "r \<in> set (ids_of_text content) \<Longrightarrow> plain_id r"
proof -
  assume "r \<in> set (ids_of_text content)"
  then obtain l where l: "l \<in> set (readlines (universal_newlines content))" and r: "r = strip l" "r \<noteq> []"
    by (auto simp: ids_of_text_def)
  from readlines_shape [OF l] obtain b where b: "l = b @ [10] \<or> l = b" "10 \<notin> set b"
      "set b \<subseteq> set (universal_newlines content)" by blast
  from b(1) have "strip l = strip b" using strip_append_space [OF space_10] by auto
  with r have rb: "r = strip b" by simp
  have "13 \<notin> set b" using b(3) universal_newlines_no_cr by blast
  with b(2) have "10 \<notin> set r" "13 \<notin> set r" using set_strip [of b] rb by auto
  with r show ?thesis by (simp add: plain_id_def strip_idem)
qed

lemma ids_of_text_roundtrip:
  assumes "\<forall>s \<in> set chunk. plain_id s"
  shows "ids_of_text (chunk_text chunk) = chunk"
proof -
  have "13 \<notin> set (chunk_text chunk)" using assms by (auto simp: chunk_text_def plain_id_def)
  then have 1: "universal_newlines (chunk_text chunk) = chunk_text chunk" by (rule universal_newlines_id)
  have 2: "readlines (chunk_text chunk) = map (\<lambda>s. s @ [10]) chunk"
    using assms by (intro readlines_chunk_text) (simp add: plain_id_def)
  have 3: "map strip (map (\<lambda>s. s @ [10]) chunk) = chunk"
    using assms by (induction chunk) (simp_all add: strip_append_space [OF space_10] plain_id_def)
  have "filter (\<lambda>s. s \<noteq> []) chunk = chunk" using assms by (simp add: plain_id_def)
  with 1 2 3 show ?thesis by (simp add: ids_of_text_def)
qed

text \<open>
  Claim C10. After \<open>save_chunk_text\<close> has written a chunk, \<open>read_ids_from_txt\<close> reads the
  file back as \<open>ids_of_text (chunk_text chunk)\<close>, and this is the chunk itself exactly when
  every identifier of the chunk is non-empty, holds no line feed and no carriage return and
  is unchanged by \<^verbatim>\<open>strip()\<close>: with that precondition the round trip gives the identical
  ordered sequence, and without it (an identifier with leading or trailing white space, one
  that strips to empty, one with a line break inside) it does not.
\<close>

theorem text_manifest_roundtrip:
  assumes "save_chunk_text fs chunk p = Finished fs'"
  shows "read_ids_from_txt fs' p = Inr (ids_of_text (chunk_text chunk))
     \<and> (ids_of_text (chunk_text chunk) = chunk
          \<longleftrightarrow> (\<forall>s \<in> set chunk. s \<noteq> [] \<and> 10 \<notin> set s \<and> 13 \<notin> set s \<and> strip s = s))"
proof
  from assms have "lookup fs' p = Some (File (chunk_text chunk))" by (rule save_chunk_text_content)
  then show "read_ids_from_txt fs' p = Inr (ids_of_text (chunk_text chunk))"
    by (simp add: read_ids_from_txt_def read_file_def)
next
  show "ids_of_text (chunk_text chunk) = chunk
          \<longleftrightarrow> (\<forall>s \<in> set chunk. s \<noteq> [] \<and> 10 \<notin> set s \<and> 13 \<notin> set s \<and> strip s = s)"
  proof
    assume "ids_of_text (chunk_text chunk) = chunk"
    then have "\<forall>s \<in> set chunk. plain_id s" using ids_of_text_plain [of _ "chunk_text chunk"] by auto
    then show "\<forall>s \<in> set chunk. s \<noteq> [] \<and> 10 \<notin> set s \<and> 13 \<notin> set s \<and> strip s = s"
      by (simp add: plain_id_def)
  next
    assume "\<forall>s \<in> set chunk. s \<noteq> [] \<and> 10 \<notin> set s \<and> 13 \<notin> set s \<and> strip s = s"
    then have "\<forall>s \<in> set chunk. plain_id s" by (simp add: plain_id_def)
    then show "ids_of_text (chunk_text chunk) = chunk" by (rule ids_of_text_roundtrip)
  qed
qed

text \<open>The chunk \<^verbatim>\<open>"a b", "c"\<close> is read back as it was written; the chunk
  \<^verbatim>\<open>" a", ""\<close> is not.\<close>

theorem text_manifest_roundtrip_witness:
  "save_chunk_text (Dir []) [cp ''a b'', cp ''c''] [cp ''chunks'', cp ''chunk_1.text'']
     = Finished (Dir [(cp ''chunks'', Dir [(cp ''chunk_1.text'', File (cp ''a b'' @ [10] @ cp ''c'' @ [10]))])])
   \<and> read_ids_from_txt
         (Dir [(cp ''chunks'', Dir [(cp ''chunk_1.text'', File (cp ''a b'' @ [10] @ cp ''c'' @ [10]))])])
         [cp ''chunks'', cp ''chunk_1.text'']
       = Inr [cp ''a b'', cp ''c'']
   \<and> ids_of_text (chunk_text [cp '' a'', []]) = [cp ''a'']"
proof -
  have s: "save_chunk_text (Dir []) [cp ''a b'', cp ''c''] [cp ''chunks'', cp ''chunk_1.text'']
     = Finished (Dir [(cp ''chunks'', Dir [(cp ''chunk_1.text'', File (cp ''a b'' @ [10] @ cp ''c'' @ [10]))])])"
    by (simp add: save_chunk_text_def mkdir_parents_def parent_def write_file_def chunk_text_def cp_def)
  have g: "\<forall>s \<in> set [cp ''a b'', cp ''c'']. s \<noteq> [] \<and> 10 \<notin> set s \<and> 13 \<notin> set s \<and> strip s = s"
    by (simp add: cp_def strip_def py_isspace_def)
  have b: "ids_of_text (chunk_text [cp '' a'', []]) = [cp ''a'']"
    by (simp add: ids_of_text_def chunk_text_def cp_def strip_def py_isspace_def)
  from text_manifest_roundtrip [OF s] g s b show ?thesis by simp
qed

section \<open>Structured manifests\<close>

lemma hex_value_digit: "d < 16 \<Longrightarrow> hex_value (hex_digit d) = Some d"
  by (auto simp: hex_value_def hex_digit_def)

lemma decode_escape_low:
  "c < 32 \<Longrightarrow> decode_uXXXX (48 # 48 # hex_digit (c div 16) # hex_digit (c mod 16) # rest) = Some c"
proof -
  assume c: "c < 32"
  then have "c div 16 < 16" "c mod 16 < 16" by simp_all
  then have "hex_value (hex_digit (c div 16)) = Some (c div 16)"
    "hex_value (hex_digit (c mod 16)) = Some (c mod 16)" by (simp_all add: hex_value_digit)
  moreover have "hex_value 48 = Some 0" by (simp add: hex_value_def)
  ultimately show ?thesis by (simp add: decode_uXXXX_def)
qed

lemma scanstring_escape_char:
  "scanstring (escape_char c @ rest) = prepend c (scanstring rest)"
proof -
  consider "c = 92" | "c = 34" | "c = 8" | "c = 12" | "c = 10" | "c = 13" | "c = 9"
    | "c < 32" "c \<notin> {8, 9, 10, 12, 13}" | "32 \<le> c" "c \<noteq> 34" "c \<noteq> 92"
    by fastforce
  then show ?thesis
  proof cases
    case 8
    then have e: "escape_char c = [92, 117, 48, 48, hex_digit (c div 16), hex_digit (c mod 16)]"
      by (auto simp: escape_char_def)
    from 8 have d: "decode_uXXXX (48 # 48 # hex_digit (c div 16) # hex_digit (c mod 16) # rest) = Some c"
      by (intro decode_escape_low)
    from 8 have "\<not> 55296 \<le> c" by simp
    with e d show ?thesis by simp
  next
    case 9
    then have "escape_char c = [c]" by (auto simp: escape_char_def)
    with 9 show ?thesis by simp
  qed (simp_all add: escape_char_def backslash_char_def)
qed

lemma scanstring_encoded:
  "scanstring (concat (map escape_char s) @ 34 # rest) = Some (s, rest)"
proof (induction s)
  case Nil
  then show ?case by simp
next
  case (Cons c s)
  have "scanstring (concat (map escape_char (c # s)) @ 34 # rest)
        = scanstring (escape_char c @ (concat (map escape_char s) @ 34 # rest))" by simp
  also have "\<dots> = prepend c (scanstring (concat (map escape_char s) @ 34 # rest))"
    by (rule scanstring_escape_char)
  also have "\<dots> = Some (c # s, rest)" by (simp add: Cons.IH prepend_def)
  finally show ?case .
qed

lemma skip_ws_newline_indent: "skip_ws (newline_indent l @ rest) = skip_ws rest"
  by (simp add: skip_ws_def newline_indent_def json_ws_def dropWhile_append)

lemma skip_ws_nonws: "\<not> json_ws c \<Longrightarrow> skip_ws (c # rest) = c # rest"
  by (simp add: skip_ws_def)

lemma encoded_head: "py_encode_basestring s = 34 # concat (map escape_char s) @ [34]"
  by (simp add: py_encode_basestring_def)

lemma join_encoded_head:
  "items \<noteq> [] \<Longrightarrow> \<exists>t. join sep (map py_encode_basestring items) = 34 # t"
proof (cases items)
  case Nil
  assume "items \<noteq> []"
  with Nil show ?thesis by simp
next
  case (Cons x xs)
  then show ?thesis by (cases xs) (simp_all add: encoded_head)
qed

lemma parse_items_string:
  "parse_items (py_encode_basestring x @ rest) =
     (case skip_ws rest of
        [] \<Rightarrow> None
      | d # r1 \<Rightarrow>
          if d = 93 then Some ([x], r1)
          else if d = 44 then prepend x (parse_items (skip_ws r1))
          else None)"
proof -
  have "scanstring (concat (map escape_char x) @ 34 # rest) = Some (x, rest)"
    by (rule scanstring_encoded)
  then show ?thesis
    by (subst parse_items.simps) (simp add: encoded_head split: list.splits)
qed

lemma parse_items_joined:
  assumes "items \<noteq> []"
  shows "parse_items (join (44 # newline_indent l) (map py_encode_basestring items)
                      @ newline_indent m @ 93 # rest)
         = Some (items, rest)"
  using assms
proof (induction items rule: list_nonempty_induct)
  case (single x)
  have "skip_ws (newline_indent m @ 93 # rest) = 93 # rest"
    by (simp add: skip_ws_newline_indent skip_ws_nonws json_ws_def)
  then show ?case by (simp add: parse_items_string)
next
  case (cons x xs)
  from cons.hyps obtain y ys where xs: "xs = y # ys" by (cases xs) auto
  let ?tail = "join (44 # newline_indent l) (map py_encode_basestring xs) @ newline_indent m @ 93 # rest"
  from cons.hyps obtain t where t: "join (44 # newline_indent l) (map py_encode_basestring xs) = 34 # t"
    using join_encoded_head by blast
  have j: "join (44 # newline_indent l) (map py_encode_basestring (x # xs)) @ newline_indent m @ 93 # rest
        = py_encode_basestring x @ (44 # newline_indent l @ ?tail)"
    by (simp add: xs)
  have w1: "skip_ws (44 # newline_indent l @ ?tail) = 44 # newline_indent l @ ?tail"
    by (simp add: skip_ws_nonws json_ws_def)
  have "skip_ws (newline_indent l @ ?tail) = skip_ws ?tail" by (rule skip_ws_newline_indent)
  also have "\<dots> = ?tail" by (simp add: t skip_ws_nonws json_ws_def)
  finally have w2: "skip_ws (newline_indent l @ ?tail) = ?tail" .
  show ?case
    unfolding j by (simp add: parse_items_string w1 w2 cons.IH prepend_def)
qed

lemma json_loads_array:
  assumes "skip_ws r = d # r1" "d \<noteq> 93" "parse_items (d # r1) = Some (items, rest)" "skip_ws rest = []"
  shows "json_loads (91 # r) = Some items"
  using assms by (simp add: json_loads_def skip_ws_nonws json_ws_def)

lemma json_roundtrip: "json_loads (json_list 0 chunk) = Some chunk"
proof (cases "chunk = []")
  case True
  then show ?thesis by (simp add: json_loads_def json_list_def skip_ws_def json_ws_def)
next
  case False
  define body where
    "body = join (44 # newline_indent (Suc 0)) (map py_encode_basestring chunk) @ newline_indent 0 @ [93]"
  from False obtain t where "join (44 # newline_indent (Suc 0)) (map py_encode_basestring chunk) = 34 # t"
    using join_encoded_head by blast
  then have b: "body = 34 # (t @ newline_indent 0 @ [93])" by (simp add: body_def)
  have doc: "json_list 0 chunk = 91 # (newline_indent (Suc 0) @ body)"
    using False by (simp add: json_list_def body_def)
  have "skip_ws (newline_indent (Suc 0) @ body) = skip_ws body" by (rule skip_ws_newline_indent)
  also have "\<dots> = body" unfolding b by (simp add: skip_ws_nonws json_ws_def)
  finally have w: "skip_ws (newline_indent (Suc 0) @ body) = 34 # (t @ newline_indent 0 @ [93])"
    by (simp only: b)
  have "parse_items body = Some (chunk, [])"
    unfolding body_def using parse_items_joined [OF False, of "Suc 0" 0 "[]"] by simp
  then have p: "parse_items (34 # (t @ newline_indent 0 @ [93])) = Some (chunk, [])"
    by (simp only: b)
  have "json_loads (91 # (newline_indent (Suc 0) @ body)) = Some chunk"
    using w _ p by (rule json_loads_array) (simp_all add: skip_ws_def)
  then show ?thesis by (simp only: doc)
qed

lemma escape_char_verbatim: "32 \<le> c \<Longrightarrow> c \<noteq> 34 \<Longrightarrow> c \<noteq> 92 \<Longrightarrow> escape_char c = [c]"
  by (auto simp: escape_char_def)

lemma encode_verbatim:
  "\<forall>c \<in> set s. 32 \<le> c \<and> c \<noteq> 34 \<and> c \<noteq> 92 \<Longrightarrow> py_encode_basestring s = [34] @ s @ [34]"
  by (induction s) (simp_all add: py_encode_basestring_def escape_char_verbatim)

lemma save_chunk_json_content:
  "save_chunk_json fs chunk p = Finished fs' \<Longrightarrow> read_file fs' p = Inr (json_list 0 chunk)"
  unfolding save_chunk_json_def
  by (cases "mkdir_parents fs (parent p)") (auto dest: write_file_content simp: read_file_def)

text \<open>
  Claim C9. After \<open>save_chunk_json\<close> has written a chunk, the file holds the document
  \<open>json_list 0 chunk\<close>; parsing this document gives back the identical ordered sequence of
  identifiers, whatever characters they hold; and characters outside ASCII (code points
  from 128 on) are written as themselves, not escaped.
\<close>

theorem json_manifest_roundtrip:
  assumes "save_chunk_json fs chunk p = Finished fs'"
  shows "read_file fs' p = Inr (json_list 0 chunk)
     \<and> json_loads (json_list 0 chunk) = Some chunk
     \<and> (\<forall>c. 128 \<le> c \<longrightarrow> escape_char c = [c])
     \<and> (\<forall>s \<in> set chunk. (\<forall>c \<in> set s. 128 \<le> c) \<longrightarrow> py_encode_basestring s = [34] @ s @ [34])"
proof (intro conjI)
  from assms show "read_file fs' p = Inr (json_list 0 chunk)" by (rule save_chunk_json_content)
  show "json_loads (json_list 0 chunk) = Some chunk" by (rule json_roundtrip)
  show "\<forall>c. 128 \<le> c \<longrightarrow> escape_char c = [c]" by (simp add: escape_char_verbatim)
  show "\<forall>s \<in> set chunk. (\<forall>c \<in> set s. 128 \<le> c) \<longrightarrow> py_encode_basestring s = [34] @ s @ [34]"
  proof (intro ballI impI)
    fix s :: pystr assume "\<forall>c \<in> set s. 128 \<le> c"
    then have "\<forall>c \<in> set s. 32 \<le> c \<and> c \<noteq> 34 \<and> c \<noteq> 92" by auto
    then show "py_encode_basestring s = [34] @ s @ [34]" by (rule encode_verbatim)
  qed
qed

text \<open>A chunk with the identifiers \<^verbatim>\<open>U+00E9 U+65E5\<close> and \<^verbatim>\<open>a"b\<close>.\<close>

theorem json_manifest_roundtrip_witness:
  "save_chunk_json (Dir []) [[233, 26085], cp ''a\"b''] [cp ''chunks'', cp ''chunk_1.json'']
     = Finished (Dir [(cp ''chunks'', Dir [(cp ''chunk_1.json'',
         File [91, 10, 32, 32, 34, 233, 26085, 34, 44, 10, 32, 32, 34, 97, 92, 34, 98, 34, 10, 93])])])
   \<and> json_loads [91, 10, 32, 32, 34, 233, 26085, 34, 44, 10, 32, 32, 34, 97, 92, 34, 98, 34, 10, 93]
       = Some [[233, 26085], cp ''a\"b'']
   \<and> escape_char 233 = [233]
   \<and> py_encode_basestring [233, 26085] = [34, 233, 26085, 34]"
proof -
  have d: "json_list 0 [[233, 26085], cp ''a\"b'']
      = [91, 10, 32, 32, 34, 233, 26085, 34, 44, 10, 32, 32, 34, 97, 92, 34, 98, 34, 10, 93]"
    by (simp add: json_list_def newline_indent_def py_encode_basestring_def escape_char_def cp_def
        numeral_2_eq_2)
  have s: "save_chunk_json (Dir []) [[233, 26085], cp ''a\"b''] [cp ''chunks'', cp ''chunk_1.json'']
     = Finished (Dir [(cp ''chunks'', Dir [(cp ''chunk_1.json'',
         File [91, 10, 32, 32, 34, 233, 26085, 34, 44, 10, 32, 32, 34, 97, 92, 34, 98, 34, 10, 93])])])"
    unfolding save_chunk_json_def d
    by (simp add: mkdir_parents_def parent_def write_file_def cp_def)
  from json_manifest_roundtrip [OF s] s d show ?thesis by simp
qed

section \<open>Transactor\<close>

text \<open>
  Claim C1. One copy operation on a pair of an identifier \<open>i\<close> and a source directory
  \<open>sp\<close>, with a directory already at the target \<open>dest/i\<close>, at a place unrelated to the
  source (neither path lies inside the other): the operation finishes, the target is then
  exactly the tree of the source (whatever the target held is gone, nothing is merged), the
  source is as it was, and so is every path unrelated to the target.
\<close>

theorem copy_entry_replaces_target:
  assumes src: "lookup fs sp = Some (Dir src_entries)"
    and tgt: "lookup fs (dest @ [i]) = Some (Dir old_entries)"
    and unrelated: "\<not> prefix sp (dest @ [i])" "\<not> prefix (dest @ [i]) sp"
  shows "\<exists>fs'. copy_entry dest fs (i, sp) = Finished fs'
     \<and> lookup fs' (dest @ [i]) = Some (Dir src_entries)
     \<and> lookup fs' sp = Some (Dir src_entries)
     \<and> (\<forall>q. \<not> prefix (dest @ [i]) q \<and> \<not> prefix q (dest @ [i]) \<longrightarrow> lookup fs' q = lookup fs q)"
proof -
  let ?t = "dest @ [i]"
  define fs1 where "fs1 = remove ?t fs"
  define fs2 where "fs2 = place ?t (Dir src_entries) fs1"
  have r: "remove_existing fs ?t = Finished fs1"
    using tgt by (simp add: remove_existing_cases fs1_def)
  have gone: "lookup fs1 ?t = None" unfolding fs1_def by (rule lookup_remove_same) simp
  have src1: "lookup fs1 sp = Some (Dir src_entries)"
    unfolding fs1_def using unrelated src by (simp add: lookup_remove_other)
  from tgt have "lookup fs dest \<noteq> None" using lookup_prefix [of dest ?t fs] by auto
  with tgt have "is_dir fs dest"
    by (cases "lookup fs dest") (auto simp: lookup_append is_dir_def split: node.splits)
  then have d1: "is_dir fs1 dest" unfolding fs1_def by (intro remove_keeps_dir) simp_all
  then obtain ds where ds: "lookup fs1 dest = Some (Dir ds)" by (auto simp: is_dir_lookup)
  have c: "copytree fs1 sp ?t = Finished fs2"
    using src1 gone unrelated(1) d1
    by (simp add: copytree_def path_exists_def parent_def mkdir_parents_existing fs2_def)
  have res: "copy_entry dest fs (i, sp) = Finished fs2"
    by (simp add: copy_entry_def r c)
  have t2: "lookup fs2 ?t = Some (Dir src_entries)"
    unfolding fs2_def using ds by (intro lookup_place_same) simp_all
  have s2: "lookup fs2 sp = Some (Dir src_entries)"
    unfolding fs2_def using unrelated src1 by (simp add: lookup_place_other)
  have frame: "\<forall>q. \<not> prefix ?t q \<and> \<not> prefix q ?t \<longrightarrow> lookup fs2 q = lookup fs q"
    unfolding fs2_def fs1_def by (simp add: lookup_place_other lookup_remove_other)
  from res t2 s2 frame show ?thesis by blast
qed

text \<open>The target \<^verbatim>\<open>/out/chunk_1/A\<close> holds a file \<^verbatim>\<open>g\<close>; after the copy it
  holds the file \<^verbatim>\<open>f\<close> of \<^verbatim>\<open>/data/A\<close> and nothing else.\<close>

theorem copy_entry_replaces_target_witness:
  "copy_entry [cp ''out'', cp ''chunk_1'']
      (Dir [(cp ''data'', Dir [(cp ''A'', Dir [(cp ''f'', File (cp ''new''))])]),
            (cp ''out'', Dir [(cp ''chunk_1'', Dir [(cp ''A'', Dir [(cp ''g'', File (cp ''old''))])])])])
      (cp ''A'', [cp ''data'', cp ''A''])
    = Finished
      (Dir [(cp ''data'', Dir [(cp ''A'', Dir [(cp ''f'', File (cp ''new''))])]),
            (cp ''out'', Dir [(cp ''chunk_1'', Dir [(cp ''A'', Dir [(cp ''f'', File (cp ''new''))])])])])"
proof -
  define fs where "fs =
      Dir [(cp ''data'', Dir [(cp ''A'', Dir [(cp ''f'', File (cp ''new''))])]),
           (cp ''out'', Dir [(cp ''chunk_1'', Dir [(cp ''A'', Dir [(cp ''g'', File (cp ''old''))])])])]"
  have 1: "lookup fs [cp ''data'', cp ''A''] = Some (Dir [(cp ''f'', File (cp ''new''))])"
    by (simp add: fs_def cp_def)
  have 2: "lookup fs ([cp ''out'', cp ''chunk_1''] @ [cp ''A'']) = Some (Dir [(cp ''g'', File (cp ''old''))])"
    by (simp add: fs_def cp_def)
  have 3: "\<not> prefix [cp ''data'', cp ''A''] ([cp ''out'', cp ''chunk_1''] @ [cp ''A''])"
    by (simp add: cp_def)
  have 4: "\<not> prefix ([cp ''out'', cp ''chunk_1''] @ [cp ''A'']) [cp ''data'', cp ''A'']"
    by (simp add: cp_def)
  from copy_entry_replaces_target [OF 1 2 3 4]
  obtain fs' where r: "copy_entry [cp ''out'', cp ''chunk_1''] fs (cp ''A'', [cp ''data'', cp ''A'']) = Finished fs'"
    and t: "lookup fs' ([cp ''out'', cp ''chunk_1''] @ [cp ''A'']) = Some (Dir [(cp ''f'', File (cp ''new''))])"
    by blast
  have "copy_entry [cp ''out'', cp ''chunk_1''] fs (cp ''A'', [cp ''data'', cp ''A''])
      = Finished
      (Dir [(cp ''data'', Dir [(cp ''A'', Dir [(cp ''f'', File (cp ''new''))])]),
            (cp ''out'', Dir [(cp ''chunk_1'', Dir [(cp ''A'', Dir [(cp ''f'', File (cp ''new''))])])])])"
    by (simp add: fs_def copy_entry_def remove_existing_def path_exists_def is_dir_def rmtree_def
        copytree_def mkdir_parents_def parent_def cp_def)
  with r show ?thesis unfolding fs_def by simp
qed

lemma shutil_move_absent:
  assumes "lookup fs dst = None"
  shows "shutil_move fs src dst =
     (case lookup fs src of
        None \<Rightarrow> Raised FileNotFoundError fs
      | Some n \<Rightarrow>
          if prefix src dst then
            (case n of Dir es \<Rightarrow> Raised ShutilError fs | File c \<Rightarrow> Raised NotADirectoryError fs)
          else
            (case lookup fs (parent dst) of
               None \<Rightarrow> Raised FileNotFoundError fs
             | Some (File c) \<Rightarrow> Raised NotADirectoryError fs
             | Some (Dir ds) \<Rightarrow> Finished (place dst n (remove src fs))))"
  using assms
  by (cases "src = dst")
     (auto simp: shutil_move_def rename_to_def is_dir_def split: option.splits node.splits)

text \<open>
  Claim C2. One move operation on a pair of an identifier \<open>i\<close> and a source path \<open>sp\<close>:
  when it finishes, the source existed before, the source path no longer exists and the
  target \<open>dest/i\<close> is exactly what the source was before the move. It does finish when the
  source exists, \<open>dest\<close> is a directory and neither of source and target lies inside the
  other. An entry at the target is removed first: by \<open>rmtree\<close> when it is a directory,
  by \<open>unlink\<close> when it is a file.
\<close>

theorem move_entry_semantics:
  "(move_entry dest fs (i, sp) = Finished fs' \<longrightarrow>
       lookup fs sp \<noteq> None \<and> lookup fs' sp = None \<and> lookup fs' (dest @ [i]) = lookup fs sp)
   \<and> (lookup fs sp \<noteq> None \<and> is_dir fs dest \<and> \<not> prefix sp (dest @ [i]) \<and> \<not> prefix (dest @ [i]) sp
        \<longrightarrow> (\<exists>fs''. move_entry dest fs (i, sp) = Finished fs''))
   \<and> (is_dir fs (dest @ [i]) \<longrightarrow> remove_existing fs (dest @ [i]) = rmtree fs (dest @ [i]))
   \<and> (is_file fs (dest @ [i]) \<longrightarrow> remove_existing fs (dest @ [i]) = unlink fs (dest @ [i]))"
proof (intro conjI impI)
  let ?t = "dest @ [i]"
  assume m: "move_entry dest fs (i, sp) = Finished fs'"
  then obtain fs1 where r: "remove_existing fs ?t = Finished fs1"
    and mv: "shutil_move fs1 sp ?t = Finished fs'"
    by (cases "remove_existing fs ?t") (auto simp: move_entry_def)
  have gone: "lookup fs1 ?t = None" using _ r by (rule remove_existing_gone) simp
  from mv obtain n ds where n: "lookup fs1 sp = Some n" and np: "\<not> prefix sp ?t"
    and par: "lookup fs1 dest = Some (Dir ds)" and fs': "fs' = place ?t n (remove sp fs1)"
    by (auto simp: shutil_move_absent [OF gone] parent_def split: option.splits node.splits if_splits)
  have nq: "\<not> prefix ?t sp" using lookup_prefix [OF _ gone, of sp] n by auto
  have "lookup fs1 sp = lookup fs sp" using nq np r by (rule remove_existing_other)
  with n have src: "lookup fs sp = Some n" by simp
  have sp_ne: "sp \<noteq> []" using np by auto
  have "\<not> prefix sp dest" using np by (auto simp: prefix_def)
  moreover have "is_dir fs1 dest" using par by (simp add: is_dir_lookup)
  ultimately have "is_dir (remove sp fs1) dest" by (rule remove_keeps_dir)
  then obtain ds' where "lookup (remove sp fs1) dest = Some (Dir ds')" by (auto simp: is_dir_lookup)
  then have t: "lookup fs' ?t = Some n" unfolding fs' by (intro lookup_place_same) simp_all
  have "lookup fs' sp = lookup (remove sp fs1) sp"
    unfolding fs' using nq np by (rule lookup_place_other)
  also have "\<dots> = None" using sp_ne by (rule lookup_remove_same)
  finally have s: "lookup fs' sp = None" .
  from src s t show "lookup fs sp \<noteq> None" "lookup fs' sp = None" "lookup fs' ?t = lookup fs sp"
    by simp_all
next
  let ?t = "dest @ [i]"
  assume a: "lookup fs sp \<noteq> None \<and> is_dir fs dest \<and> \<not> prefix sp ?t \<and> \<not> prefix ?t sp"
  obtain fs1 where r: "remove_existing fs ?t = Finished fs1"
    by (cases "lookup fs ?t = None") (simp_all add: remove_existing_cases)
  have gone: "lookup fs1 ?t = None" using _ r by (rule remove_existing_gone) simp
  from a have u: "\<not> prefix ?t sp" "\<not> prefix sp ?t" and d: "is_dir fs dest" by simp_all
  from u r have "lookup fs1 sp = lookup fs sp" by (rule remove_existing_other)
  with a obtain n where n: "lookup fs1 sp = Some n" by auto
  have "\<not> prefix ?t dest" by (auto simp: prefix_def)
  from this d r have "is_dir fs1 dest" by (rule remove_existing_keeps_dir)
  then obtain ds where "lookup fs1 dest = Some (Dir ds)" by (auto simp: is_dir_lookup)
  with n a have "shutil_move fs1 sp ?t = Finished (place ?t n (remove sp fs1))"
    by (simp add: shutil_move_absent [OF gone] parent_def)
  with r show "\<exists>fs''. move_entry dest fs (i, sp) = Finished fs''"
    by (simp add: move_entry_def)
next
  assume "is_dir fs (dest @ [i])"
  then show "remove_existing fs (dest @ [i]) = rmtree fs (dest @ [i])"
    by (auto simp: remove_existing_def path_exists_def is_dir_def split: option.splits)
next
  assume "is_file fs (dest @ [i])"
  then show "remove_existing fs (dest @ [i]) = unlink fs (dest @ [i])"
    by (auto simp: remove_existing_def path_exists_def is_dir_def is_file_def split: option.splits node.splits)
qed

text \<open>The target \<^verbatim>\<open>/out/chunk_1/A\<close> is a file; after the move it is the directory
  that was \<^verbatim>\<open>/data/A\<close>, and \<^verbatim>\<open>/data/A\<close> is gone.\<close>

theorem move_entry_semantics_witness:
  "move_entry [cp ''out'', cp ''chunk_1'']
      (Dir [(cp ''data'', Dir [(cp ''A'', Dir [(cp ''f'', File (cp ''new''))])]),
            (cp ''out'', Dir [(cp ''chunk_1'', Dir [(cp ''A'', File (cp ''old''))])])])
      (cp ''A'', [cp ''data'', cp ''A''])
    = Finished
      (Dir [(cp ''data'', Dir []),
            (cp ''out'', Dir [(cp ''chunk_1'', Dir [(cp ''A'', Dir [(cp ''f'', File (cp ''new''))])])])])
   \<and> lookup (Dir [(cp ''data'', Dir []),
            (cp ''out'', Dir [(cp ''chunk_1'', Dir [(cp ''A'', Dir [(cp ''f'', File (cp ''new''))])])])])
         [cp ''data'', cp ''A''] = None
   \<and> lookup (Dir [(cp ''data'', Dir []),
            (cp ''out'', Dir [(cp ''chunk_1'', Dir [(cp ''A'', Dir [(cp ''f'', File (cp ''new''))])])])])
         [cp ''out'', cp ''chunk_1'', cp ''A''] = Some (Dir [(cp ''f'', File (cp ''new''))])"
proof -
  define fs where "fs =
      Dir [(cp ''data'', Dir [(cp ''A'', Dir [(cp ''f'', File (cp ''new''))])]),
           (cp ''out'', Dir [(cp ''chunk_1'', Dir [(cp ''A'', File (cp ''old''))])])]"
  define fs' where "fs' =
      Dir [(cp ''data'', Dir []),
           (cp ''out'', Dir [(cp ''chunk_1'', Dir [(cp ''A'', Dir [(cp ''f'', File (cp ''new''))])])])]"
  have m: "move_entry [cp ''out'', cp ''chunk_1''] fs (cp ''A'', [cp ''data'', cp ''A'']) = Finished fs'"
    by (simp add: fs_def fs'_def move_entry_def remove_existing_def path_exists_def is_dir_def
        unlink_def shutil_move_def rename_to_def parent_def cp_def)
  have l: "lookup fs [cp ''data'', cp ''A''] = Some (Dir [(cp ''f'', File (cp ''new''))])"
    by (simp add: fs_def cp_def)
  from move_entry_semantics [of "[cp ''out'', cp ''chunk_1'']" fs "cp ''A''" "[cp ''data'', cp ''A'']" fs'] m l
  have "lookup fs' [cp ''data'', cp ''A''] = None
      \<and> lookup fs' [cp ''out'', cp ''chunk_1'', cp ''A''] = Some (Dir [(cp ''f'', File (cp ''new''))])"
    by simp
  with m show ?thesis unfolding fs_def fs'_def by simp
qed

section \<open>Duplicate identifiers\<close>

lemma set_dedup: "set (dedup xs) = set xs"
  by (induction xs rule: dedup.induct) auto

lemma distinct_dedup: "distinct (dedup xs)"
  by (induction xs rule: dedup.induct) (auto simp: set_dedup)

lemma length_dedup: "length (dedup xs) = card (set xs)"
  using distinct_card [OF distinct_dedup, of xs] by (simp add: set_dedup)

lemma chunk_mapping_of_keys:
  "chunk_mapping_of mapping ch acc = Inr cm \<Longrightarrow>
     map fst cm = map fst acc @ dedup (filter (\<lambda>i. i \<notin> set (map fst acc)) ch)"
proof (induction ch arbitrary: acc)
  case Nil
  then show ?case by simp
next
  case (Cons i ch)
  from Cons.prems obtain p where p: "map_of mapping i = Some p"
    and r: "chunk_mapping_of mapping ch (AList.update i p acc) = Inr cm"
    by (auto split: option.splits)
  from Cons.IH [OF r] have ih: "map fst cm = map fst (AList.update i p acc)
      @ dedup (filter (\<lambda>j. j \<notin> set (map fst (AList.update i p acc))) ch)" .
  show ?case
  proof (cases "i \<in> set (map fst acc)")
    case True
    then have "map fst (AList.update i p acc) = map fst acc" by (simp add: update_keys)
    with ih True show ?thesis by simp
  next
    case False
    then have k: "map fst (AList.update i p acc) = map fst acc @ [i]" by (simp add: update_keys)
    have "filter (\<lambda>j. j \<notin> set (map fst acc @ [i])) ch
        = filter (\<lambda>y. y \<noteq> i) (filter (\<lambda>j. j \<notin> set (map fst acc)) ch)"
      by (auto intro: filter_cong)
    with ih k False show ?thesis by simp
  qed
qed

lemma chunk_mapping_of_values:
  "chunk_mapping_of mapping ch acc = Inr cm \<Longrightarrow>
     map_of cm i = (if i \<in> set ch then map_of mapping i else map_of acc i)"
proof (induction ch arbitrary: acc)
  case Nil
  then show ?case by simp
next
  case (Cons j ch)
  from Cons.prems obtain p where p: "map_of mapping j = Some p"
    and r: "chunk_mapping_of mapping ch (AList.update j p acc) = Inr cm"
    by (auto split: option.splits)
  from Cons.IH [OF r] p show ?case by (auto simp: update_conv')
qed

lemma chunk_mapping_of_succeeds:
  "\<forall>i \<in> set ch. dict_contains mapping i \<Longrightarrow> \<exists>cm. chunk_mapping_of mapping ch acc = Inr cm"
  by (induction ch arbitrary: acc) (auto simp: dict_contains_def)

lemma chunkify_concat: "chunkify xs csize = Inr chunks \<Longrightarrow> concat chunks = xs"
proof -
  assume c: "chunkify xs csize = Inr chunks"
  then have pos: "0 < csize" by (auto simp: chunkify_def split: if_splits)
  then have k: "0 < nat csize" by simp
  from c pos have "chunks = map (\<lambda>i. slice xs i (i + nat csize)) (py_range 0 (length xs) (nat csize))"
    by (simp add: chunkify_def)
  then show ?thesis using py_range_concat [OF k, of xs 0] by simp
qed

text \<open>
  Claim C5, as amended. Duplicates of a resolved identifier are preserved up to the chunks:
  the chunks, concatenated, are the loaded identifiers that are in the mapping, each
  occurrence kept. A chunk is processed through the dictionary
  \<^verbatim>\<open>{id_: mapping[id_] for id_ in ch}\<close>, so within one chunk the transactor is applied
  once per distinct identifier, in the order of first occurrence, however often the
  identifier occurs in the chunk; occurrences in different chunks are applied chunk by
  chunk, each below the directory of its own chunk.
\<close>

theorem duplicates_processed_once_per_chunk:
  assumes "chunkify (existing_ids_in_order loaded mapping) csize = Inr chunks"
  shows "concat chunks = filter (dict_contains mapping) loaded
     \<and> (\<forall>ch \<in> set chunks. \<exists>cm. chunk_mapping_of mapping ch [] = Inr cm
           \<and> map fst cm = dedup ch
           \<and> length cm = card (set ch)
           \<and> (\<forall>i \<in> set ch. map_of cm i = map_of mapping i)
           \<and> (\<forall>idx. process_chunk a mapping dest_root fs (idx, ch) =
                 and_then (mkdir_parents fs (dest_root @ [chunk_name_of a idx]))
                   (for_each ((if process_chunks a = Copy then copy_entry else move_entry)
                                (dest_root @ [chunk_name_of a idx])) cm)))"
proof
  from assms have "concat chunks = existing_ids_in_order loaded mapping" by (rule chunkify_concat)
  then show c: "concat chunks = filter (dict_contains mapping) loaded"
    by (simp add: existing_ids_in_order_def)
  show "\<forall>ch \<in> set chunks. \<exists>cm. chunk_mapping_of mapping ch [] = Inr cm
           \<and> map fst cm = dedup ch
           \<and> length cm = card (set ch)
           \<and> (\<forall>i \<in> set ch. map_of cm i = map_of mapping i)
           \<and> (\<forall>idx. process_chunk a mapping dest_root fs (idx, ch) =
                 and_then (mkdir_parents fs (dest_root @ [chunk_name_of a idx]))
                   (for_each ((if process_chunks a = Copy then copy_entry else move_entry)
                                (dest_root @ [chunk_name_of a idx])) cm))"
  proof
    fix ch assume ch: "ch \<in> set chunks"
    then have "set ch \<subseteq> set (concat chunks)" by auto
    with c have "\<forall>i \<in> set ch. dict_contains mapping i" by auto
    then obtain cm where cm: "chunk_mapping_of mapping ch [] = Inr cm"
      using chunk_mapping_of_succeeds by blast
    from chunk_mapping_of_keys [OF cm] have k: "map fst cm = dedup ch" by simp
    then have "length (map fst cm) = length (dedup ch)" by simp
    then have l: "length cm = card (set ch)" by (simp add: length_dedup)
    have v: "\<forall>i \<in> set ch. map_of cm i = map_of mapping i"
      using chunk_mapping_of_values [OF cm] by simp
    have p: "\<forall>idx. process_chunk a mapping dest_root fs (idx, ch) =
                 and_then (mkdir_parents fs (dest_root @ [chunk_name_of a idx]))
                   (for_each ((if process_chunks a = Copy then copy_entry else move_entry)
                                (dest_root @ [chunk_name_of a idx])) cm)"
      by (simp add: process_chunk_def cm copy_chunk_folders_def move_chunk_folders_def)
    from cm k l v p show "\<exists>cm. chunk_mapping_of mapping ch [] = Inr cm
           \<and> map fst cm = dedup ch
           \<and> length cm = card (set ch)
           \<and> (\<forall>i \<in> set ch. map_of cm i = map_of mapping i)
           \<and> (\<forall>idx. process_chunk a mapping dest_root fs (idx, ch) =
                 and_then (mkdir_parents fs (dest_root @ [chunk_name_of a idx]))
                   (for_each ((if process_chunks a = Copy then copy_entry else move_entry)
                                (dest_root @ [chunk_name_of a idx])) cm))"
      by blast
  qed
qed

text \<open>The identifiers \<^verbatim>\<open>A, B, A, A\<close> in chunks of three: the first chunk
  \<^verbatim>\<open>A, B, A\<close> is processed as the two pairs for \<^verbatim>\<open>A\<close> and \<^verbatim>\<open>B\<close>, the second
  chunk as the pair for \<^verbatim>\<open>A\<close>.\<close>

theorem duplicates_processed_once_per_chunk_witness:
  "chunkify (existing_ids_in_order [cp ''A'', cp ''B'', cp ''A'', cp ''A'']
               [(cp ''A'', [cp ''data'', cp ''A'']), (cp ''B'', [cp ''data'', cp ''B''])]) 3
     = Inr [[cp ''A'', cp ''B'', cp ''A''], [cp ''A'']]
   \<and> chunk_mapping_of [(cp ''A'', [cp ''data'', cp ''A'']), (cp ''B'', [cp ''data'', cp ''B''])]
         [cp ''A'', cp ''B'', cp ''A''] []
       = Inr [(cp ''A'', [cp ''data'', cp ''A'']), (cp ''B'', [cp ''data'', cp ''B''])]
   \<and> chunk_mapping_of [(cp ''A'', [cp ''data'', cp ''A'']), (cp ''B'', [cp ''data'', cp ''B''])]
         [cp ''A''] []
       = Inr [(cp ''A'', [cp ''data'', cp ''A''])]
   \<and> dedup [cp ''A'', cp ''B'', cp ''A''] = [cp ''A'', cp ''B'']"
proof -
  have c: "chunkify (existing_ids_in_order [cp ''A'', cp ''B'', cp ''A'', cp ''A'']
               [(cp ''A'', [cp ''data'', cp ''A'']), (cp ''B'', [cp ''data'', cp ''B''])]) 3
     = Inr [[cp ''A'', cp ''B'', cp ''A''], [cp ''A'']]"
    by (simp add: chunkify_def existing_ids_in_order_def dict_contains_def slice_def
        py_range.simps cp_def)
  from duplicates_processed_once_per_chunk [OF c] c show ?thesis
    by (simp add: cp_def)
qed

text \<open>
  The claim as stated fails for a duplicated occurrence within a single chunk: the chunk
  \<^verbatim>\<open>A, A\<close> gives a dictionary of one pair, so the transactor is applied once, not
  once per occurrence.
\<close>

theorem duplicate_in_chunk_counterexample:
  "chunkify (existing_ids_in_order [cp ''A'', cp ''A''] [(cp ''A'', [cp ''data'', cp ''A''])]) 2
     = Inr [[cp ''A'', cp ''A'']]
   \<and> chunk_mapping_of [(cp ''A'', [cp ''data'', cp ''A''])] [cp ''A'', cp ''A''] []
       = Inr [(cp ''A'', [cp ''data'', cp ''A''])]
   \<and> length [(cp ''A'', [cp ''data'', cp ''A''])] < length [cp ''A'', cp ''A'']"
  by (simp add: chunkify_def existing_ids_in_order_def dict_contains_def slice_def
      py_range.simps cp_def)

section \<open>The run as a whole\<close>

lemma and_then_Finished: "and_then x Finished = x"
  by (cases x) simp_all

lemma and_then_assoc: "and_then (and_then x f) g = and_then x (\<lambda>fs. and_then (f fs) g)"
  by (cases x) simp_all

lemma for_each_append:
  "for_each body (xs @ ys) fs = and_then (for_each body xs fs) (for_each body ys)"
proof (induction xs arbitrary: fs)
  case Nil
  then show ?case by simp
next
  case (Cons x xs)
  then show ?case by (cases "body fs x") simp_all
qed

lemma list_files_of_dir: "is_dir fs p \<Longrightarrow> \<exists>files. list_files_in_folder fs p r = Inr files"
  by (auto simp: is_dir_lookup list_files_in_folder_def)

lemma build_detailed_map_succeeds:
  "\<forall>i \<in> set is. \<exists>p. map_of mapping i = Some p \<and> is_dir fs p \<Longrightarrow>
     \<exists>dm. build_detailed_map fs r mapping is acc = Inr dm"
proof (induction "is" arbitrary: acc)
  case Nil
  then show ?case by simp
next
  case (Cons i "is")
  from Cons.prems obtain p where p: "map_of mapping i = Some p" "is_dir fs p" by auto
  then obtain files where f: "list_files_in_folder fs p r = Inr files"
    using list_files_of_dir by blast
  from Cons.prems have "\<forall>i \<in> set is. \<exists>p. map_of mapping i = Some p \<and> is_dir fs p" by simp
  from Cons.IH [OF this] p f show ?case by simp
qed

lemma resolved_are_directories:
  assumes "map_ids_to_folders fs src loaded = Inr (mapping, missing)"
    and "i \<in> set (existing_ids_in_order loaded mapping)"
  shows "\<exists>p. map_of mapping i = Some p \<and> is_dir fs p"
proof -
  from assms(1) have m: "mapping = fst (resolve_ids fs src loaded [] [])"
    by (auto simp: map_ids_to_folders_def split: if_splits)
  from assms(2) obtain p where p: "map_of mapping i = Some p"
    by (auto simp: existing_ids_in_order_def dict_contains_def)
  have "p = src @ [i] \<and> is_dir fs p"
    using _ p [unfolded m] by (rule resolve_ids_values) simp
  with p show ?thesis by blast
qed

lemma main_after_resolution:
  assumes "load_ids read_csv fs (ids a) (csv_column a) = Inr loaded" and "loaded \<noteq> []"
    and "map_ids_to_folders fs (source a) loaded = Inr (mapping, missing)"
  shows "\<exists>detailed_map. main read_csv a fs =
     and_then (chunk_phase a mapping (existing_ids_in_order loaded mapping) fs)
       (save_all_mapping a detailed_map)"
proof -
  have "\<forall>i \<in> set (existing_ids_in_order loaded mapping). \<exists>p. map_of mapping i = Some p \<and> is_dir fs p"
    using resolved_are_directories [OF assms(3)] by blast
  then obtain dm where
    "build_detailed_map fs (recursive a) mapping (existing_ids_in_order loaded mapping) [] = Inr dm"
    using build_detailed_map_succeeds by blast
  with assms have "main read_csv a fs =
     and_then (chunk_phase a mapping (existing_ids_in_order loaded mapping) fs)
       (save_all_mapping a dm)" by (simp add: main_def)
  then show ?thesis by blast
qed

lemma save_all_mapping_skipped:
  "chunk_size a \<noteq> 0 \<or> \<not> save_chunks a \<or> print_only a \<Longrightarrow> save_all_mapping a dm = Finished"
  by (auto simp: save_all_mapping_def fun_eq_iff)

lemma main_chunked:
  assumes "load_ids read_csv fs (ids a) (csv_column a) = Inr loaded" and "loaded \<noteq> []"
    and "map_ids_to_folders fs (source a) loaded = Inr (mapping, missing)"
    and "0 < chunk_size a"
    and "chunkify (existing_ids_in_order loaded mapping) (chunk_size a) = Inr chunks"
  shows "main read_csv a fs =
     and_then (save_chunk_files a chunks fs) (process_all_chunks a mapping chunks)"
proof -
  from main_after_resolution [OF assms(1-3)] obtain dm where
    "main read_csv a fs = and_then (chunk_phase a mapping (existing_ids_in_order loaded mapping) fs)
       (save_all_mapping a dm)" by blast
  moreover have "save_all_mapping a dm = Finished"
    using assms(4) by (intro save_all_mapping_skipped) simp
  ultimately show ?thesis using assms(4,5)
    by (simp add: and_then_Finished chunk_phase_def)
qed

lemma main_unchunked:
  assumes "load_ids read_csv fs (ids a) (csv_column a) = Inr loaded" and "loaded \<noteq> []"
    and "map_ids_to_folders fs (source a) loaded = Inr (mapping, missing)"
    and "chunk_size a \<le> 0" and "\<not> save_chunks a"
  shows "main read_csv a fs = Finished fs"
proof -
  from main_after_resolution [OF assms(1-3)] obtain dm where
    "main read_csv a fs = and_then (chunk_phase a mapping (existing_ids_in_order loaded mapping) fs)
       (save_all_mapping a dm)" by blast
  moreover have "save_all_mapping a dm = Finished"
    using assms(5) by (intro save_all_mapping_skipped) simp
  ultimately show ?thesis using assms(4)
    by (simp add: and_then_Finished chunk_phase_def)
qed

lemma chunkify_positive: "0 < csize \<Longrightarrow> \<exists>chunks. chunkify xs csize = Inr chunks"
  by (simp add: chunkify_def)

lemma demo_load:
  "load_ids no_csv (demo_fs ms) [cp ''ids.txt''] None = Inr [cp ''A'', cp ''B'', cp ''C'']"
  by (simp add: load_ids_def demo_fs_def path_exists_def path_name_def path_suffix_def py_lower_def
      read_ids_from_txt_def read_file_def ids_of_text_def strip_def py_isspace_def cp_def)

lemma demo_resolve:
  "map_ids_to_folders (demo_fs ms) [cp ''data''] [cp ''A'', cp ''B'', cp ''C'']
     = Inr ([(cp ''A'', [cp ''data'', cp ''A'']), (cp ''B'', [cp ''data'', cp ''B'']),
             (cp ''C'', [cp ''data'', cp ''C''])], [])"
  by (simp add: map_ids_to_folders_def demo_fs_def path_exists_def is_dir_def cp_def)

lemma demo_chunks:
  "chunkify (existing_ids_in_order [cp ''A'', cp ''B'', cp ''C'']
       [(cp ''A'', [cp ''data'', cp ''A'']), (cp ''B'', [cp ''data'', cp ''B'']),
        (cp ''C'', [cp ''data'', cp ''C''])]) 1
     = Inr [[cp ''A''], [cp ''B''], [cp ''C'']]"
  by (simp add: chunkify_def existing_ids_in_order_def dict_contains_def slice_def py_range.simps cp_def)

lemma demo_enumerate:
  "enumerate1 [[cp ''A''], [cp ''B''], [cp ''C'']] = [(1, [cp ''A'']), (2, [cp ''B'']), (3, [cp ''C''])]"
  by (simp add: enumerate1_def upt_rec)

lemma demo_mkdir: "mkdir_parents (demo_fs ms) [cp ''chunks''] = Finished (demo_fs ms)"
  by (simp add: mkdir_parents_def demo_fs_def cp_def update_triv)

lemmas demo_save_defs = save_chunk_file_def save_chunk_json_def manifest_path_def chunk_name_of_def
  demo_args_def fmt_name_def py_str.simps mkdir_parents_def write_file_def parent_def demo_fs_def
  cp_def update_triv

text \<open>
  Claim C6, as amended. A failure while writing one chunk's manifest is not local: the
  source has no exception handler, so the exception leaves the loop and \<^verbatim>\<open>main\<close>. The
  run ends with that exception in the state the failing write left; the manifests of the
  earlier chunks stay written, the manifests of the later chunks are not written, and no
  chunk is processed.
\<close>

theorem manifest_failure_aborts_run:
  assumes "load_ids read_csv fs (ids a) (csv_column a) = Inr loaded" and "loaded \<noteq> []"
    and "map_ids_to_folders fs (source a) loaded = Inr (mapping, missing)"
    and "0 < chunk_size a" and "save_chunks a" and "\<not> print_only a"
    and "chunkify (existing_ids_in_order loaded mapping) (chunk_size a) = Inr chunks"
    and "enumerate1 chunks = earlier @ (idx, ch) # later"
    and "mkdir_parents fs (chunks_dir a) = Finished fs0"
    and "for_each (save_chunk_file a) earlier fs0 = Finished fs1"
    and "save_chunk_file a fs1 (idx, ch) = Raised e fs2"
  shows "main read_csv a fs = Raised e fs2"
proof -
  have "for_each (save_chunk_file a) (enumerate1 chunks) fs0 = Raised e fs2"
    by (simp add: assms(8,10,11) for_each_append)
  then have "save_chunk_files a chunks fs = Raised e fs2"
    using assms(5,6,9) by (simp add: save_chunk_files_def)
  then show ?thesis
    using main_chunked [OF assms(1-4) assms(7)] by simp
qed

text \<open>The path of the second manifest is a directory: the first manifest is written, the
  run ends with \<^verbatim>\<open>IsADirectoryError\<close>, and there is no third manifest.\<close>

theorem manifest_failure_aborts_run_witness:
  "main no_csv demo_args (demo_fs [(cp ''chunk_2.json'', Dir [])])
     = Raised IsADirectoryError
         (demo_fs [(cp ''chunk_2.json'', Dir []),
                   (cp ''chunk_1.json'', File (json_list 0 [cp ''A'']))])
   \<and> lookup (demo_fs [(cp ''chunk_2.json'', Dir []),
                      (cp ''chunk_1.json'', File (json_list 0 [cp ''A'']))])
         [cp ''chunks'', cp ''chunk_3.json''] = None"
proof -
  let ?fs = "demo_fs [(cp ''chunk_2.json'', Dir [])]"
  let ?fa = "demo_fs [(cp ''chunk_2.json'', Dir []), (cp ''chunk_1.json'', File (json_list 0 [cp ''A'']))]"
  have 1: "load_ids no_csv ?fs (ids demo_args) (csv_column demo_args) = Inr [cp ''A'', cp ''B'', cp ''C'']"
    by (simp add: demo_args_def demo_load)
  have 2: "[cp ''A'', cp ''B'', cp ''C''] \<noteq> []" by simp
  have 3: "map_ids_to_folders ?fs (source demo_args) [cp ''A'', cp ''B'', cp ''C'']
     = Inr ([(cp ''A'', [cp ''data'', cp ''A'']), (cp ''B'', [cp ''data'', cp ''B'']),
             (cp ''C'', [cp ''data'', cp ''C''])], [])"
    by (simp add: demo_args_def demo_resolve)
  have 4: "0 < chunk_size demo_args" "save_chunks demo_args" "\<not> print_only demo_args"
    by (simp_all add: demo_args_def)
  have 5: "chunkify (existing_ids_in_order [cp ''A'', cp ''B'', cp ''C'']
       [(cp ''A'', [cp ''data'', cp ''A'']), (cp ''B'', [cp ''data'', cp ''B'']),
        (cp ''C'', [cp ''data'', cp ''C''])]) (chunk_size demo_args)
     = Inr [[cp ''A''], [cp ''B''], [cp ''C'']]"
    using demo_chunks by (simp add: demo_args_def)
  have 6: "enumerate1 [[cp ''A''], [cp ''B''], [cp ''C'']]
      = [(1, [cp ''A''])] @ (2, [cp ''B'']) # [(3, [cp ''C''])]"
    by (simp add: demo_enumerate)
  have 7: "mkdir_parents ?fs (chunks_dir demo_args) = Finished ?fs"
    by (simp add: demo_args_def demo_mkdir)
  have "save_chunk_file demo_args ?fs (1, [cp ''A'']) = Finished ?fa"
    by (simp add: demo_save_defs)
  then have 8: "for_each (save_chunk_file demo_args) [(1, [cp ''A''])] ?fs = Finished ?fa"
    by simp
  have 9: "save_chunk_file demo_args ?fa (2, [cp ''B'']) = Raised IsADirectoryError ?fa"
    by (simp add: demo_save_defs)
  have 10: "lookup ?fa [cp ''chunks'', cp ''chunk_3.json''] = None"
    by (simp add: demo_fs_def cp_def)
  from manifest_failure_aborts_run [OF 1 2 3 4 5 6 7 8 9] 10 show ?thesis by simp
qed

text \<open>
  The claim as stated fails: when the path of the first manifest is a directory, the run
  ends with \<^verbatim>\<open>IsADirectoryError\<close> and the manifests of the second and third chunk are
  not written.
\<close>

theorem manifest_failure_counterexample:
  "main no_csv demo_args (demo_fs [(cp ''chunk_1.json'', Dir [])])
     = Raised IsADirectoryError (demo_fs [(cp ''chunk_1.json'', Dir [])])
   \<and> lookup (demo_fs [(cp ''chunk_1.json'', Dir [])]) [cp ''chunks'', cp ''chunk_2.json''] = None
   \<and> lookup (demo_fs [(cp ''chunk_1.json'', Dir [])]) [cp ''chunks'', cp ''chunk_3.json''] = None"
proof -
  let ?fs = "demo_fs [(cp ''chunk_1.json'', Dir [])]"
  have 1: "load_ids no_csv ?fs (ids demo_args) (csv_column demo_args) = Inr [cp ''A'', cp ''B'', cp ''C'']"
    by (simp add: demo_args_def demo_load)
  have 2: "[cp ''A'', cp ''B'', cp ''C''] \<noteq> []" by simp
  have 3: "map_ids_to_folders ?fs (source demo_args) [cp ''A'', cp ''B'', cp ''C'']
     = Inr ([(cp ''A'', [cp ''data'', cp ''A'']), (cp ''B'', [cp ''data'', cp ''B'']),
             (cp ''C'', [cp ''data'', cp ''C''])], [])"
    by (simp add: demo_args_def demo_resolve)
  have 4: "0 < chunk_size demo_args" by (simp add: demo_args_def)
  have 5: "chunkify (existing_ids_in_order [cp ''A'', cp ''B'', cp ''C'']
       [(cp ''A'', [cp ''data'', cp ''A'']), (cp ''B'', [cp ''data'', cp ''B'']),
        (cp ''C'', [cp ''data'', cp ''C''])]) (chunk_size demo_args)
     = Inr [[cp ''A''], [cp ''B''], [cp ''C'']]"
    using demo_chunks by (simp add: demo_args_def)
  have 6: "save_chunk_file demo_args ?fs (1, [cp ''A'']) = Raised IsADirectoryError ?fs"
    by (simp add: demo_save_defs)
  have "save_chunk_files demo_args [[cp ''A''], [cp ''B''], [cp ''C'']] ?fs = Raised IsADirectoryError ?fs"
    using demo_mkdir [of "[(cp ''chunk_1.json'', Dir [])]"] 6
    by (simp add: save_chunk_files_def demo_enumerate) (simp add: demo_args_def)
  then have "main no_csv demo_args ?fs = Raised IsADirectoryError ?fs"
    using main_chunked [OF 1 2 3 4 5] by simp
  moreover have "lookup ?fs [cp ''chunks'', cp ''chunk_2.json''] = None"
     "lookup ?fs [cp ''chunks'', cp ''chunk_3.json''] = None"
    by (simp_all add: demo_fs_def cp_def)
  ultimately show ?thesis by simp
qed

text \<open>
  Claim C7, as amended. In a run that loads at least one identifier from a valid source
  root with a positive chunk size, without \<^verbatim>\<open>--print-only\<close>, with
  \<^verbatim>\<open>--process-chunks\<close> copy or move and no destination root: once the manifests (if
  \<^verbatim>\<open>--save-chunks\<close> asked for them) are written, the run raises the \<^verbatim>\<open>ValueError\<close>
  for the missing destination (the spec's MissingDestination), before any destination
  directory is made and before any copy or move; if writing a manifest fails, the run ends
  with that failure instead. Without \<^verbatim>\<open>--save-chunks\<close> the file system is unchanged
  when the error is raised.
\<close>

theorem missing_destination_raises:
  assumes "load_ids read_csv fs (ids a) (csv_column a) = Inr loaded" and "loaded \<noteq> []"
    and "map_ids_to_folders fs (source a) loaded = Inr (mapping, missing)"
    and "0 < chunk_size a" and "\<not> print_only a"
    and "process_chunks a = Copy \<or> process_chunks a = Move"
    and "process_dest a = None"
  shows "\<exists>chunks. chunkify (existing_ids_in_order loaded mapping) (chunk_size a) = Inr chunks
     \<and> main read_csv a fs =
         (case save_chunk_files a chunks fs of
            Finished fs1 \<Rightarrow> Raised (ValueError ProcessDestMissing) fs1
          | Raised e fs1 \<Rightarrow> Raised e fs1)
     \<and> (\<not> save_chunks a \<longrightarrow> main read_csv a fs = Raised (ValueError ProcessDestMissing) fs)"
proof -
  from assms(4) obtain chunks where
    c: "chunkify (existing_ids_in_order loaded mapping) (chunk_size a) = Inr chunks"
    using chunkify_positive by blast
  have p: "process_all_chunks a mapping chunks = (\<lambda>fs1. Raised (ValueError ProcessDestMissing) fs1)"
    using assms(5-7) by (auto simp: process_all_chunks_def fun_eq_iff)
  have m: "main read_csv a fs =
         (case save_chunk_files a chunks fs of
            Finished fs1 \<Rightarrow> Raised (ValueError ProcessDestMissing) fs1
          | Raised e fs1 \<Rightarrow> Raised e fs1)"
    unfolding main_chunked [OF assms(1-4) c] p
    by (cases "save_chunk_files a chunks fs") simp_all
  have "\<not> save_chunks a \<longrightarrow> main read_csv a fs = Raised (ValueError ProcessDestMissing) fs"
    unfolding m by (simp add: save_chunk_files_def)
  with c m show ?thesis by blast
qed

theorem missing_destination_raises_witness:
  "main no_csv (demo_args\<lparr>save_chunks := False, process_chunks := Move\<rparr>) (demo_fs [])
     = Raised (ValueError ProcessDestMissing) (demo_fs [])"
proof -
  let ?a = "demo_args\<lparr>save_chunks := False, process_chunks := Move\<rparr>"
  have 1: "load_ids no_csv (demo_fs []) (ids ?a) (csv_column ?a) = Inr [cp ''A'', cp ''B'', cp ''C'']"
    by (simp add: demo_args_def demo_load)
  have 2: "[cp ''A'', cp ''B'', cp ''C''] \<noteq> []" by simp
  have 3: "map_ids_to_folders (demo_fs []) (source ?a) [cp ''A'', cp ''B'', cp ''C'']
     = Inr ([(cp ''A'', [cp ''data'', cp ''A'']), (cp ''B'', [cp ''data'', cp ''B'']),
             (cp ''C'', [cp ''data'', cp ''C''])], [])"
    by (simp add: demo_args_def demo_resolve)
  have 4: "0 < chunk_size ?a" "\<not> print_only ?a" "process_chunks ?a = Copy \<or> process_chunks ?a = Move"
    "process_dest ?a = None" "\<not> save_chunks ?a"
    by (simp_all add: demo_args_def)
  from missing_destination_raises [OF 1 2 3 4(1-4)] 4(5) show ?thesis by blast
qed

text \<open>
  The claim as stated fails on two runs in copy mode without a destination root. The run
  with chunk size 0 finishes without an error. The run with chunk size 1 and
  \<^verbatim>\<open>--save-chunks\<close> has written its three manifests when the error is raised.
\<close>

theorem missing_destination_counterexample:
  "main no_csv (demo_args\<lparr>chunk_size := 0, save_chunks := False, process_chunks := Copy\<rparr>) (demo_fs [])
     = Finished (demo_fs [])
   \<and> main no_csv (demo_args\<lparr>process_chunks := Copy\<rparr>) (demo_fs [])
     = Raised (ValueError ProcessDestMissing)
         (demo_fs [(cp ''chunk_1.json'', File (json_list 0 [cp ''A''])),
                   (cp ''chunk_2.json'', File (json_list 0 [cp ''B''])),
                   (cp ''chunk_3.json'', File (json_list 0 [cp ''C'']))])
   \<and> lookup (demo_fs []) [cp ''chunks'', cp ''chunk_1.json''] = None
   \<and> lookup (demo_fs [(cp ''chunk_1.json'', File (json_list 0 [cp ''A''])),
                      (cp ''chunk_2.json'', File (json_list 0 [cp ''B''])),
                      (cp ''chunk_3.json'', File (json_list 0 [cp ''C'']))])
         [cp ''chunks'', cp ''chunk_1.json''] = Some (File (json_list 0 [cp ''A'']))"
proof -
  let ?za = "demo_args\<lparr>chunk_size := 0, save_chunks := False, process_chunks := Copy\<rparr>"
  let ?a = "demo_args\<lparr>process_chunks := Copy\<rparr>"
  let ?m = "[(cp ''A'', [cp ''data'', cp ''A'']), (cp ''B'', [cp ''data'', cp ''B'']),
             (cp ''C'', [cp ''data'', cp ''C''])]"
  let ?fa = "demo_fs [(cp ''chunk_1.json'', File (json_list 0 [cp ''A'']))]"
  let ?fb = "demo_fs [(cp ''chunk_1.json'', File (json_list 0 [cp ''A''])),
                       (cp ''chunk_2.json'', File (json_list 0 [cp ''B'']))]"
  let ?fc = "demo_fs [(cp ''chunk_1.json'', File (json_list 0 [cp ''A''])),
                       (cp ''chunk_2.json'', File (json_list 0 [cp ''B''])),
                       (cp ''chunk_3.json'', File (json_list 0 [cp ''C'']))]"
  have l0: "load_ids no_csv (demo_fs []) (ids ?za) (csv_column ?za) = Inr [cp ''A'', cp ''B'', cp ''C'']"
    by (simp add: demo_args_def demo_load)
  have ne: "[cp ''A'', cp ''B'', cp ''C''] \<noteq> []" by simp
  have r0: "map_ids_to_folders (demo_fs []) (source ?za) [cp ''A'', cp ''B'', cp ''C''] = Inr (?m, [])"
    by (simp add: demo_args_def demo_resolve)
  have "chunk_size ?za \<le> 0" "\<not> save_chunks ?za" by (simp_all add: demo_args_def)
  with l0 ne r0 have first: "main no_csv ?za (demo_fs []) = Finished (demo_fs [])"
    by (rule main_unchunked)
  have l: "load_ids no_csv (demo_fs []) (ids ?a) (csv_column ?a) = Inr [cp ''A'', cp ''B'', cp ''C'']"
    by (simp add: demo_args_def demo_load)
  have r: "map_ids_to_folders (demo_fs []) (source ?a) [cp ''A'', cp ''B'', cp ''C''] = Inr (?m, [])"
    by (simp add: demo_args_def demo_resolve)
  have p: "0 < chunk_size ?a" by (simp add: demo_args_def)
  have c: "chunkify (existing_ids_in_order [cp ''A'', cp ''B'', cp ''C''] ?m) (chunk_size ?a)
     = Inr [[cp ''A''], [cp ''B''], [cp ''C'']]"
    using demo_chunks by (simp add: demo_args_def)
  have s1: "save_chunk_file ?a (demo_fs []) (1, [cp ''A'']) = Finished ?fa"
    by (simp add: demo_save_defs)
  have s2: "save_chunk_file ?a ?fa (2, [cp ''B'']) = Finished ?fb"
    by (simp add: demo_save_defs)
  have s3: "save_chunk_file ?a ?fb (3, [cp ''C'']) = Finished ?fc"
    by (simp add: demo_save_defs)
  have "save_chunk_files ?a [[cp ''A''], [cp ''B''], [cp ''C'']] (demo_fs []) = Finished ?fc"
    using demo_mkdir [of "[]"] s1 s2 s3
    by (simp add: save_chunk_files_def demo_enumerate) (simp add: demo_args_def)
  moreover have "process_all_chunks ?a ?m [[cp ''A''], [cp ''B''], [cp ''C'']] ?fc
      = Raised (ValueError ProcessDestMissing) ?fc"
    by (simp add: process_all_chunks_def demo_args_def)
  ultimately have second: "main no_csv ?a (demo_fs []) = Raised (ValueError ProcessDestMissing) ?fc"
    using main_chunked [OF l ne r p c] by simp
  have "lookup (demo_fs []) [cp ''chunks'', cp ''chunk_1.json''] = None"
    "lookup ?fc [cp ''chunks'', cp ''chunk_1.json''] = Some (File (json_list 0 [cp ''A'']))"
    by (simp_all add: demo_fs_def cp_def)
  with first second show ?thesis by simp
qed

end
